theory Spec2Isabelle
  imports Main
begin

section \<open>Primitive gates and the arena (GateKeeper)\<close>

text \<open>
  An \<open>IGate*\<close> is modelled as an index into the arena that owns the gate:
  \<open>None\<close> is the null pointer, \<open>Some i\<close> points to the \<open>i\<close>-th gate added to the
  \<open>GateKeeper\<close>.  Everything that aborts the C++ program is a value of type \<open>error\<close>:
  a failed \<open>assert\<close> (with the asserted expression), a null or dangling pointer that is
  dereferenced, \<open>std::array::at\<close> or a vector index out of range, and the exhaustion of
  the call stack by an unbounded recursion of \<open>getValue\<close>.
\<close>

type_synonym ptr = "nat option"

datatype error =
    AssertionFailed string
  | NullPointer
  | InvalidPointer
  | OutOfRange
  | StackExhausted

text \<open>
  The classes derived from \<open>Gate<N>\<close>, each with its \<open>std::array<IGate*,N> inputs\<close>
  written out as \<open>N\<close> pointer fields, followed by the fields of the class itself:
  \<open>Register\<close> has \<open>value\<close> and \<open>nextValue\<close>, \<open>TickOutputOnly\<close> has \<open>t\<close> and \<open>name\<close>,
  \<open>Input\<close> has \<open>val\<close> and \<open>name\<close>.
\<close>

datatype gate =
    LowOutput
  | Register ptr bool bool
  | Nand ptr ptr
  | TickOutputOnly ptr int string
  | Input ptr ptr bool string

fun getType :: "gate \<Rightarrow> string" where
  "getType LowOutput = ''low''"
| "getType (Register in0 v nv) = ''register''"
| "getType (Nand in0 in1) = ''nand''"
| "getType (TickOutputOnly in0 t nm) = ''tick - outputonly''"
| "getType (Input in0 in1 v nm) = ''user-input''"

fun getNumInputs :: "gate \<Rightarrow> nat" where
  "getNumInputs LowOutput = 0"
| "getNumInputs (Register in0 v nv) = 1"
| "getNumInputs (Nand in0 in1) = 2"
| "getNumInputs (TickOutputOnly in0 t nm) = 1"
| "getNumInputs (Input in0 in1 v nm) = 2"

text \<open>\<open>getInput(i)\<close> is \<open>inputs.at(i)\<close>, which throws when \<open>i\<close> is out of range.\<close>

fun getInput :: "gate \<Rightarrow> nat \<Rightarrow> error + ptr" where
  "getInput (Register in0 v nv) i = (if i = 0 then Inr in0 else Inl OutOfRange)"
| "getInput (Nand in0 in1) i =
     (if i = 0 then Inr in0 else if i = 1 then Inr in1 else Inl OutOfRange)"
| "getInput (TickOutputOnly in0 t nm) i = (if i = 0 then Inr in0 else Inl OutOfRange)"
| "getInput (Input in0 in1 v nm) i =
     (if i = 0 then Inr in0 else if i = 1 then Inr in1 else Inl OutOfRange)"
| "getInput LowOutput i = Inl OutOfRange"

text \<open>The assignment \<open>c->getInput(i) = p\<close> through the reference returned by \<open>at(i)\<close>.\<close>

fun setInput :: "gate \<Rightarrow> nat \<Rightarrow> ptr \<Rightarrow> error + gate" where
  "setInput (Register in0 v nv) i p =
     (if i = 0 then Inr (Register p v nv) else Inl OutOfRange)"
| "setInput (Nand in0 in1) i p =
     (if i = 0 then Inr (Nand p in1) else if i = 1 then Inr (Nand in0 p) else Inl OutOfRange)"
| "setInput (TickOutputOnly in0 t nm) i p =
     (if i = 0 then Inr (TickOutputOnly p t nm) else Inl OutOfRange)"
| "setInput (Input in0 in1 v nm) i p =
     (if i = 0 then Inr (Input p in1 v nm)
      else if i = 1 then Inr (Input in0 p v nm) else Inl OutOfRange)"
| "setInput LowOutput i p = Inl OutOfRange"

text \<open>
  \<open>GateKeeper::gates\<close>: the diagnostic name and the gate, in creation order.
  \<open>addGate\<close> appends.
\<close>

type_synonym GateKeeper = "(string \<times> gate) list"

definition addGate :: "GateKeeper \<Rightarrow> string \<Rightarrow> gate \<Rightarrow> GateKeeper" where
  "addGate gates name g = gates @ [(name, g)]"

text \<open>\<open>LongNameBuilder\<close>: the name built so far.\<close>

definition addChildId :: "string \<Rightarrow> string \<Rightarrow> string" where
  "addChildId name v = name @ ''{'' @ v @ ''}: ''"

definition addType :: "string \<Rightarrow> string \<Rightarrow> string" where
  "addType name v = name @ ''['' @ v @ ''] ''"

text \<open>
  \<open>getValue\<close> through a pointer.  \<open>Nand::getValue\<close> calls \<open>getValue\<close> of its inputs, so
  the recursion follows the gate graph and does not end on a cycle of nand gates; the
  first argument bounds the depth of the call stack, and running out of it is
  \<open>StackExhausted\<close>.  The operator \<open>&&\<close> does not evaluate its right operand when the
  left one is false.  \<open>TickOutputOnly::getValue\<close> is \<open>assert(false)\<close>.
\<close>

fun getValue :: "nat \<Rightarrow> GateKeeper \<Rightarrow> ptr \<Rightarrow> error + bool" where
  "getValue 0 gates p = Inl StackExhausted"
| "getValue (Suc n) gates None = Inl NullPointer"
| "getValue (Suc n) gates (Some i) =
     (if i < length gates then
        (case snd (gates ! i) of
           LowOutput \<Rightarrow> Inr False
         | Register in0 v nv \<Rightarrow> Inr v
         | Nand in0 in1 \<Rightarrow>
             (case getValue n gates in0 of
                Inl e \<Rightarrow> Inl e
              | Inr a \<Rightarrow>
                  if a then
                    (case getValue n gates in1 of
                       Inl e \<Rightarrow> Inl e
                     | Inr b \<Rightarrow> Inr (\<not> b))
                  else Inr True)
         | TickOutputOnly in0 t nm \<Rightarrow> Inl (AssertionFailed ''false'')
         | Input in0 in1 v nm \<Rightarrow> Inr v)
      else Inl InvalidPointer)"

section \<open>The scheduler: GateKeeper::tick\<close>

text \<open>
  What \<open>TickOutputOnly::tick1\<close> writes to \<open>std::cout\<close> is kept as a list of lines, each
  the name, the counter after \<open>++t\<close> and the value read (\<open>H\<close> is \<open>True\<close>).
  The state of a simulation is the arena and the lines printed so far.
\<close>

type_synonym line = "string \<times> int \<times> bool"
type_synonym sim = "GateKeeper \<times> line list"

text \<open>\<open>tick1\<close> and \<open>tick2\<close> of the gate at position \<open>i\<close> (the default is to do nothing).\<close>

fun tick1 :: "nat \<Rightarrow> nat \<Rightarrow> sim \<Rightarrow> error + sim" where
  "tick1 fuel i (gates, out) =
     (case snd (gates ! i) of
        Register in0 v nv \<Rightarrow>
          (case getValue fuel gates in0 of
             Inl e \<Rightarrow> Inl e
           | Inr b \<Rightarrow> Inr (gates[i := (fst (gates ! i), Register in0 v b)], out))
      | TickOutputOnly in0 t nm \<Rightarrow>
          (case getValue fuel gates in0 of
             Inl e \<Rightarrow> Inl e
           | Inr b \<Rightarrow>
               Inr (gates[i := (fst (gates ! i), TickOutputOnly in0 (t + 1) nm)],
                    out @ [(nm, t + 1, b)]))
      | _ \<Rightarrow> Inr (gates, out))"

fun tick2 :: "nat \<Rightarrow> GateKeeper \<Rightarrow> GateKeeper" where
  "tick2 i gates =
     (case snd (gates ! i) of
        Register in0 v nv \<Rightarrow> gates[i := (fst (gates ! i), Register in0 nv nv)]
      | _ \<Rightarrow> gates)"

text \<open>The two loops of \<open>tick\<close>, over the positions of the arena in order.\<close>

fun tick1_loop :: "nat \<Rightarrow> nat list \<Rightarrow> sim \<Rightarrow> error + sim" where
  "tick1_loop fuel [] st = Inr st"
| "tick1_loop fuel (i # is) st =
     (case tick1 fuel i st of
        Inl e \<Rightarrow> Inl e
      | Inr st' \<Rightarrow> tick1_loop fuel is st')"

fun tick2_loop :: "nat list \<Rightarrow> GateKeeper \<Rightarrow> GateKeeper" where
  "tick2_loop [] gates = gates"
| "tick2_loop (i # is) gates = tick2_loop is (tick2 i gates)"

definition tick :: "nat \<Rightarrow> sim \<Rightarrow> error + sim" where
  "tick fuel st =
     (case tick1_loop fuel [0..<length (fst st)] st of
        Inl e \<Rightarrow> Inl e
      | Inr (gates, out) \<Rightarrow> Inr (tick2_loop [0..<length gates] gates, out))"

text \<open>\<open>n\<close> calls of \<open>tick\<close> in a row, as the loops of \<open>main\<close> do.\<close>

fun ticks :: "nat \<Rightarrow> nat \<Rightarrow> sim \<Rightarrow> error + sim" where
  "ticks fuel 0 st = Inr st"
| "ticks fuel (Suc n) st =
     (case tick fuel st of
        Inl e \<Rightarrow> Inl e
      | Inr st' \<Rightarrow> ticks fuel n st')"

section \<open>Prototypes\<close>

text \<open>
  \<open>GatePrototype<T>\<close> for the three aliases of the source, \<open>OutputPrototype\<close> with its
  name, and \<open>CompositePrototype\<close> with \<open>type_name\<close>, \<open>outer_input_ids\<close>,
  \<open>outer_output_ids\<close> and \<open>commands\<close>.  A \<open>ChildData\<close> is \<open>proto\<close>, \<open>inputs\<close>,
  \<open>outputs\<close> and \<open>child_id\<close>.
\<close>

datatype gate_type = T_Nand | T_LowOutput | T_Register

datatype prototype =
    GatePrototype gate_type
  | OutputPrototype string
  | CompositePrototype string "string list" "string list" "ChildData list"
and ChildData =
    ChildData prototype "string list" "string list" string

text \<open>
  The gate that \<open>std::make_unique<T>()\<close> builds.  None of the three classes declares a
  constructor, so the object is zero-initialised first: the inputs are null, and the
  member initialisers set \<open>value\<close> and \<open>nextValue\<close> to \<open>false\<close>.
\<close>

fun new_gate :: "gate_type \<Rightarrow> gate" where
  "new_gate T_Nand = Nand None None"
| "new_gate T_LowOutput = LowOutput"
| "new_gate T_Register = Register None False False"

fun InputSize :: "gate_type \<Rightarrow> nat" where
  "InputSize T_Nand = 2"
| "InputSize T_LowOutput = 0"
| "InputSize T_Register = 1"

text \<open>\<open>IPrototype::getNumInputs\<close> and \<open>getNumOutputs\<close>, as the constructors set them.\<close>

fun protoNumInputs :: "prototype \<Rightarrow> nat" where
  "protoNumInputs (GatePrototype T) = InputSize T"
| "protoNumInputs (OutputPrototype nm) = 1"
| "protoNumInputs (CompositePrototype tn ins outs cmds) = length ins"

fun protoNumOutputs :: "prototype \<Rightarrow> nat" where
  "protoNumOutputs (GatePrototype T) = 1"
| "protoNumOutputs (OutputPrototype nm) = 0"
| "protoNumOutputs (CompositePrototype tn ins outs cmds) = length outs"

fun outer_input_ids :: "prototype \<Rightarrow> string list" where
  "outer_input_ids (CompositePrototype tn ins outs cmds) = ins"
| "outer_input_ids _ = []"

fun outer_output_ids :: "prototype \<Rightarrow> string list" where
  "outer_output_ids (CompositePrototype tn ins outs cmds) = outs"
| "outer_output_ids _ = []"

fun commands :: "prototype \<Rightarrow> ChildData list" where
  "commands (CompositePrototype tn ins outs cmds) = cmds"
| "commands _ = []"

fun cmd_proto :: "ChildData \<Rightarrow> prototype" where
  "cmd_proto (ChildData x ins outs cid) = x"

fun cmd_inputs :: "ChildData \<Rightarrow> string list" where
  "cmd_inputs (ChildData x ins outs cid) = ins"

fun cmd_outputs :: "ChildData \<Rightarrow> string list" where
  "cmd_outputs (ChildData x ins outs cid) = outs"

text \<open>
  The assertions of \<open>addPrototype\<close> on the command it appends: the list of input ids is
  as long as the child's number of inputs, the list of output ids as long as its number
  of outputs.  Commands are added in no other way, so they hold of every command of
  every prototype, and of the children's commands in turn.
\<close>

fun addPrototype_ok :: "prototype \<Rightarrow> bool"
  and addPrototype_oks :: "ChildData list \<Rightarrow> bool" where
  "addPrototype_ok (GatePrototype T) = True"
| "addPrototype_ok (OutputPrototype nm) = True"
| "addPrototype_ok (CompositePrototype tn ins outs cmds) = addPrototype_oks cmds"
| "addPrototype_oks [] = True"
| "addPrototype_oks (ChildData x ins outs cid # rest) =
     (protoNumInputs x = length ins \<and> protoNumOutputs x = length outs \<and>
      addPrototype_ok x \<and> addPrototype_oks rest)"

section \<open>Circuits: instantiate, getOutput, link\<close>

text \<open>
  \<open>GateCircuit\<close> holds the pointer \<open>c\<close>.  \<open>CompositePrototype::Circuit\<close> holds \<open>state\<close>,
  the table \<open>everything\<close>, the child \<open>circuits\<close> and \<open>parent\<close>.  The table is an
  \<open>unordered_map\<close> that is never iterated: it is kept as a list of pairs with distinct
  keys.
\<close>

datatype link_state = Init | Linked

type_synonym table = "(string \<times> ptr) list"

datatype circuit =
    GateCircuit ptr
  | Circuit link_state table "circuit list" prototype

text \<open>\<open>unordered_map::insert\<close> leaves the table alone when the key is there.\<close>

definition insert_entry :: "table \<Rightarrow> string \<Rightarrow> ptr \<Rightarrow> table" where
  "insert_entry everything k v =
     (if map_of everything k = None then everything @ [(k, v)] else everything)"

text \<open>\<open>everything[k]\<close> adds the key with a null pointer when it is missing.\<close>

definition subscript :: "table \<Rightarrow> string \<Rightarrow> ptr \<times> table" where
  "subscript everything k =
     (case map_of everything k of
        None \<Rightarrow> (None, everything @ [(k, None)])
      | Some v \<Rightarrow> (v, everything))"

text \<open>
  The constructor of \<open>GateCircuit<T>\<close>: the new gate is the last of the arena.  The
  index of \<open>getOutput\<close> is a natural number here: the source passes loop counters that
  start at 0, so \<open>i >= 0\<close> holds of every call.
\<close>

definition new_GateCircuit :: "GateKeeper \<Rightarrow> string \<Rightarrow> gate \<Rightarrow> circuit \<times> GateKeeper" where
  "new_GateCircuit heimdall builder g =
     (GateCircuit (Some (length heimdall)), addGate heimdall (addType builder (getType g)) g)"

fun getOutput :: "circuit \<Rightarrow> nat \<Rightarrow> error + ptr" where
  "getOutput (GateCircuit c) i =
     (if i = 0 then Inr c else Inl (AssertionFailed ''i == 0''))"
| "getOutput (Circuit st everything circuits parent) i =
     (if \<not> i < protoNumOutputs parent
      then Inl (AssertionFailed ''i >= 0 && i < parent->getNumOutputs()'')
      else if map_of everything (outer_output_ids parent ! i) = None
      then Inl (AssertionFailed
        ''everything.find(parent->outer_output_ids[i]) != everything.end()'')
      else Inr (fst (subscript everything (outer_output_ids parent ! i))))"

text \<open>
  The inner loop of the constructor of \<open>Circuit\<close>, over \<open>i = 0 .. getNumOutputs() - 1\<close>:
  the assertion that the name is new, then the insertion of \<open>getOutput(i)\<close>.  The
  unchecked \<open>outputs[i]\<close> past the end of the vector is \<open>OutOfRange\<close>; the assertions of
  \<open>addPrototype\<close> keep \<open>i\<close> within the vector.
\<close>

fun register_outputs :: "circuit \<Rightarrow> string list \<Rightarrow> nat list \<Rightarrow> table \<Rightarrow> error + table" where
  "register_outputs circuit outputs [] everything = Inr everything"
| "register_outputs circuit outputs (i # is) everything =
     (if \<not> i < length outputs then Inl OutOfRange
      else if map_of everything (outputs ! i) \<noteq> None
      then Inl (AssertionFailed ''everything.find(outputs[i]) == everything.end()'')
      else
        (case getOutput circuit i of
           Inl e \<Rightarrow> Inl e
         | Inr p \<Rightarrow>
             register_outputs circuit outputs is (insert_entry everything (outputs ! i) p)))"

text \<open>
  \<open>instantiate\<close> of the three kinds of prototype; \<open>instantiate_commands\<close> is the loop
  over \<open>parent->commands\<close> in the constructor of \<open>Circuit\<close>, with the table, the child
  circuits and the arena built so far.  The constructor of \<open>TickOutputOnly\<close> leaves the
  input of the probe uninitialised; it is null here, as for the other gates.
\<close>

fun instantiate :: "prototype \<Rightarrow> GateKeeper \<Rightarrow> string \<Rightarrow> error + circuit \<times> GateKeeper"
  and instantiate_commands ::
    "ChildData list \<Rightarrow> string \<Rightarrow> GateKeeper \<Rightarrow> string \<Rightarrow> table \<Rightarrow> circuit list
      \<Rightarrow> error + table \<times> circuit list \<times> GateKeeper" where
  "instantiate (GatePrototype T) heimdall builder =
     Inr (new_GateCircuit heimdall builder (new_gate T))"
| "instantiate (OutputPrototype nm) heimdall builder =
     Inr (new_GateCircuit heimdall builder (TickOutputOnly None 0 nm))"
| "instantiate (CompositePrototype tn ins outs cmds) heimdall builder =
     (case instantiate_commands cmds tn heimdall builder [] [] of
        Inl e \<Rightarrow> Inl e
      | Inr (everything, circuits, heimdall') \<Rightarrow>
          Inr (Circuit Init everything circuits (CompositePrototype tn ins outs cmds),
               heimdall'))"
| "instantiate_commands [] tn heimdall builder everything circuits =
     Inr (everything, circuits, heimdall)"
| "instantiate_commands (ChildData x inputs outputs childId # rest) tn heimdall builder
       everything circuits =
     (let builder2 = addType builder tn;
          builder2 = (if childId \<noteq> [] then addChildId builder2 childId else builder2)
      in case instantiate x heimdall builder2 of
           Inl e \<Rightarrow> Inl e
         | Inr (circuit, heimdall') \<Rightarrow>
             (case register_outputs circuit outputs [0..<protoNumOutputs x] everything of
                Inl e \<Rightarrow> Inl e
              | Inr everything' \<Rightarrow>
                  instantiate_commands rest tn heimdall' builder everything'
                    (circuits @ [circuit])))"

text \<open>
  The loop of \<open>GateCircuit::link\<close>, \<open>c->getInput(i) = args[i]\<close> for the positions given.
\<close>

fun set_inputs :: "gate \<Rightarrow> ptr list \<Rightarrow> nat list \<Rightarrow> error + gate" where
  "set_inputs g args [] = Inr g"
| "set_inputs g args (i # is) =
     (case setInput g i (args ! i) of
        Inl e \<Rightarrow> Inl e
      | Inr g' \<Rightarrow> set_inputs g' args is)"

text \<open>The first loop of \<open>Circuit::link\<close>: the outer input ids enter the table.\<close>

fun insert_inputs :: "string list \<Rightarrow> ptr list \<Rightarrow> nat list \<Rightarrow> table \<Rightarrow> table" where
  "insert_inputs ids args [] everything = everything"
| "insert_inputs ids args (i # is) everything =
     insert_inputs ids args is (insert_entry everything (ids ! i) (args ! i))"

text \<open>The innermost loop of \<open>Circuit::link\<close>: \<open>data.push_back(everything[inputs[i]])\<close>.\<close>

fun resolve :: "string list \<Rightarrow> table \<Rightarrow> ptr list \<Rightarrow> ptr list \<times> table" where
  "resolve [] everything data = (data, everything)"
| "resolve (k # ks) everything data =
     (case subscript everything k of
        (p, everything') \<Rightarrow> resolve ks everything' (data @ [p]))"

text \<open>
  \<open>link\<close>.  A failure keeps the arena as it is when the program aborts, so that what
  had been written to the gates by then can be told.  \<open>link_circuits\<close> is the second
  loop of \<open>Circuit::link\<close>, over the child circuits and \<open>parent->commands\<close> side by side.
\<close>

fun link :: "circuit \<Rightarrow> ptr list \<Rightarrow> GateKeeper \<Rightarrow> error \<times> GateKeeper + circuit \<times> GateKeeper"
  and link_circuits ::
    "circuit list \<Rightarrow> ChildData list \<Rightarrow> table \<Rightarrow> GateKeeper
      \<Rightarrow> error \<times> GateKeeper + circuit list \<times> table \<times> GateKeeper" where
  "link (GateCircuit c) args gates =
     (case c of
        None \<Rightarrow> Inl (NullPointer, gates)
      | Some j \<Rightarrow>
          if \<not> j < length gates then Inl (InvalidPointer, gates)
          else if length args \<noteq> getNumInputs (snd (gates ! j))
          then Inl (AssertionFailed ''(int)args.size() == c->getNumInputs()'', gates)
          else
            (case set_inputs (snd (gates ! j)) args [0..<length args] of
               Inl e \<Rightarrow> Inl (e, gates)
             | Inr g \<Rightarrow> Inr (GateCircuit c, gates[j := (fst (gates ! j), g)])))"
| "link (Circuit st everything circuits parent) args gates =
     (if st \<noteq> Init then Inl (AssertionFailed ''state == Init'', gates)
      else if length args \<noteq> protoNumInputs parent
      then Inl (AssertionFailed ''(int)args.size() == parent->getNumInputs()'', gates)
      else
        (case link_circuits circuits (commands parent)
                (insert_inputs (outer_input_ids parent) args [0..<length args] everything)
                gates of
           Inl e \<Rightarrow> Inl e
         | Inr (circuits', everything', gates') \<Rightarrow>
             Inr (Circuit Linked everything' circuits' parent, gates')))"
| "link_circuits [] cmds everything gates = Inr ([], everything, gates)"
| "link_circuits (c # cs) [] everything gates = Inl (OutOfRange, gates)"
| "link_circuits (c # cs) (desc # cmds) everything gates =
     (case resolve (cmd_inputs desc) everything [] of
        (data, everything') \<Rightarrow>
          (case link c data gates of
             Inl e \<Rightarrow> Inl e
           | Inr (c', gates') \<Rightarrow>
               (case link_circuits cs cmds everything' gates' of
                  Inl e \<Rightarrow> Inl e
                | Inr (cs', everything'', gates'') \<Rightarrow> Inr (c' # cs', everything'', gates''))))"

section \<open>The prototypes of main\<close>

definition nandPrototype :: prototype where
  "nandPrototype = GatePrototype T_Nand"

definition lowPrototype :: prototype where
  "lowPrototype = GatePrototype T_LowOutput"

definition registerPrototype :: prototype where
  "registerPrototype = GatePrototype T_Register"

definition notPrototype :: prototype where
  "notPrototype = CompositePrototype ''not'' [''in''] [''not'']
     [ChildData nandPrototype [''in'', ''in''] [''not''] '''']"

definition andPrototype :: prototype where
  "andPrototype = CompositePrototype ''and'' [''in1'', ''in2''] [''and'']
     [ChildData nandPrototype [''in1'', ''in2''] [''nand''] '''',
      ChildData notPrototype [''nand''] [''and''] '''']"

definition orPrototype :: prototype where
  "orPrototype = CompositePrototype ''or'' [''in1'', ''in2''] [''or'']
     [ChildData notPrototype [''in1''] [''nin1''] '''',
      ChildData notPrototype [''in2''] [''nin2''] '''',
      ChildData nandPrototype [''nin1'', ''nin2''] [''or''] '''']"

definition xorPrototype :: prototype where
  "xorPrototype = CompositePrototype ''xor'' [''in1'', ''in2''] [''xor'']
     [ChildData orPrototype [''in1'', ''in2''] [''or''] '''',
      ChildData nandPrototype [''in1'', ''in2''] [''nand''] '''',
      ChildData andPrototype [''or'', ''nand''] [''xor''] '''']"

definition adderPrototype :: prototype where
  "adderPrototype = CompositePrototype ''3-bit adder'' [''1'', ''2'', ''3''] [''value'', ''carry'']
     [ChildData xorPrototype [''1'', ''2''] [''1x2''] '''',
      ChildData xorPrototype [''1x2'', ''3''] [''value''] '''',
      ChildData andPrototype [''1'', ''2''] [''12''] '''',
      ChildData andPrototype [''1'', ''3''] [''13''] '''',
      ChildData andPrototype [''3'', ''2''] [''32''] '''',
      ChildData orPrototype [''12'', ''13''] [''12+13''] '''',
      ChildData orPrototype [''12+13'', ''32''] [''carry''] '''']"

definition clkPrototype :: prototype where
  "clkPrototype = CompositePrototype ''clock'' [] [''out'']
     [ChildData registerPrototype [''in''] [''out''] '''',
      ChildData notPrototype [''out''] [''in''] '''']"

section \<open>Observing a circuit\<close>

text \<open>
  What the blocks of \<open>main\<close> do with a prototype: instantiate it in an arena, link it,
  call \<open>tick\<close> \<open>n\<close> times; then \<open>getOutput(i)->getValue()\<close> is read for each output
  of the prototype in turn.
\<close>

fun read_outputs :: "nat \<Rightarrow> GateKeeper \<Rightarrow> circuit \<Rightarrow> nat list \<Rightarrow> error + bool list" where
  "read_outputs fuel gates test [] = Inr []"
| "read_outputs fuel gates test (i # is) =
     (case getOutput test i of
        Inl e \<Rightarrow> Inl e
      | Inr p \<Rightarrow>
          (case getValue fuel gates p of
             Inl e \<Rightarrow> Inl e
           | Inr b \<Rightarrow>
               (case read_outputs fuel gates test is of
                  Inl e \<Rightarrow> Inl e
                | Inr bs \<Rightarrow> Inr (b # bs))))"

definition outputs_after ::
  "prototype \<Rightarrow> GateKeeper \<Rightarrow> string \<Rightarrow> ptr list \<Rightarrow> nat \<Rightarrow> nat \<Rightarrow> error + bool list" where
  "outputs_after proto heimdall builder args fuel n =
     (case instantiate proto heimdall builder of
        Inl e \<Rightarrow> Inl e
      | Inr (test, heimdall1) \<Rightarrow>
          (case link test args heimdall1 of
             Inl (e, heimdall2) \<Rightarrow> Inl e
           | Inr (test', heimdall2) \<Rightarrow>
               (case ticks fuel n (heimdall2, []) of
                  Inl e \<Rightarrow> Inl e
                | Inr (heimdall3, out) \<Rightarrow>
                    read_outputs fuel heimdall3 test' [0..<protoNumOutputs proto])))"

text \<open>Three \<open>Input\<close> gates with the given values, to drive the inputs of a circuit.\<close>

definition three_inputs :: "bool \<Rightarrow> bool \<Rightarrow> bool \<Rightarrow> GateKeeper" where
  "three_inputs a b c =
     [(''[user-input] '', Input None None a ''1''),
      (''[user-input] '', Input None None b ''2''),
      (''[user-input] '', Input None None c ''3'')]"

text \<open>A composite whose only placement reads a net that nothing produces.\<close>

definition danglingPrototype :: prototype where
  "danglingPrototype = CompositePrototype ''dangling'' [] [''out'']
     [ChildData nandPrototype [''missing'', ''missing''] [''out''] '''']"

text \<open>The output ids of all the commands of a composite, in the order of the commands.\<close>

fun all_outputs :: "ChildData list \<Rightarrow> string list" where
  "all_outputs [] = []"
| "all_outputs (cmd # rest) = cmd_outputs cmd @ all_outputs rest"

text \<open>
  The pointers that a table holds for a list of ids, null for an id that it lacks.
\<close>

definition lookup_all :: "table \<Rightarrow> string list \<Rightarrow> ptr list" where
  "lookup_all everything ids =
     map (\<lambda>k. case map_of everything k of None \<Rightarrow> None | Some p \<Rightarrow> p) ids"

text \<open>The positions in the arena of the gates that a circuit, with its children, wraps.\<close>

fun gates_of :: "circuit \<Rightarrow> nat set" where
  "gates_of (GateCircuit c) = set_option c"
| "gates_of (Circuit st everything circuits parent) = (\<Union>c\<in>set circuits. gates_of c)"

text \<open>
  What \<open>tick1\<close> leaves alone: a gate without its staged value (\<open>nextValue\<close>) and
  without the counter of a probe.  Two arenas are the same up to staged values when
  their gates agree on that, position by position.
\<close>

fun committed :: "gate \<Rightarrow> gate" where
  "committed (Register in0 v nv) = Register in0 v False"
| "committed (TickOutputOnly in0 t nm) = TickOutputOnly in0 0 nm"
| "committed g = g"

definition same_committed :: "GateKeeper \<Rightarrow> GateKeeper \<Rightarrow> bool" where
  "same_committed A B = (map (committed \<circ> snd) A = map (committed \<circ> snd) B)"

text \<open>
  The same gates at other addresses.  In a second arena that already holds \<open>k\<close> gates,
  a gate created as the \<open>i\<close>-th of the first arena is number \<open>k + i\<close>, and every pointer
  to it is moved by \<open>k\<close>: in the gates, in the tables and in the circuits.
\<close>

fun shift_ptr :: "nat \<Rightarrow> ptr \<Rightarrow> ptr" where
  "shift_ptr k None = None"
| "shift_ptr k (Some i) = Some (k + i)"

fun shift_gate :: "nat \<Rightarrow> gate \<Rightarrow> gate" where
  "shift_gate k LowOutput = LowOutput"
| "shift_gate k (Register in0 v nv) = Register (shift_ptr k in0) v nv"
| "shift_gate k (Nand in0 in1) = Nand (shift_ptr k in0) (shift_ptr k in1)"
| "shift_gate k (TickOutputOnly in0 t nm) = TickOutputOnly (shift_ptr k in0) t nm"
| "shift_gate k (Input in0 in1 v nm) = Input (shift_ptr k in0) (shift_ptr k in1) v nm"

definition shift_table :: "nat \<Rightarrow> table \<Rightarrow> table" where
  "shift_table k everything = map (\<lambda>(name, p). (name, shift_ptr k p)) everything"

fun shift_circuit :: "nat \<Rightarrow> circuit \<Rightarrow> circuit" where
  "shift_circuit k (GateCircuit c) = GateCircuit (shift_ptr k c)"
| "shift_circuit k (Circuit st everything circuits parent) =
     Circuit st (shift_table k everything) (map (shift_circuit k) circuits) parent"

text \<open>The gates that inherit the empty \<open>tick1\<close> and \<open>tick2\<close> of \<open>IGate\<close>.\<close>

fun no_tick :: "gate \<Rightarrow> bool" where
  "no_tick (Register in0 v nv) = False"
| "no_tick (TickOutputOnly in0 t nm) = False"
| "no_tick g = True"

text \<open>
  Arena \<open>B\<close> holds the gates of arena \<open>A\<close>, in the same order and with their pointers
  moved by \<open>k\<close>, behind \<open>k\<close> gates of its own that do nothing on a tick.  The
  diagnostic names are free to differ.
\<close>

definition relocated :: "nat \<Rightarrow> GateKeeper \<Rightarrow> GateKeeper \<Rightarrow> bool" where
  "relocated k A B =
     (length B = k + length A \<and> list_all (no_tick \<circ> snd) (take k B)
      \<and> map snd (drop k B) = map (shift_gate k \<circ> snd) A)"

section \<open>A deeper call stack changes no result\<close>

lemma getValue_mono:
  "getValue n gates p = Inr b \<Longrightarrow> getValue (n + k) gates p = Inr b"
proof (induction n gates p arbitrary: b rule: getValue.induct)
  case (1 gates p)
  then show ?case by simp
next
  case (2 n gates)
  then show ?case by simp
next
  case (3 n gates i)
  show ?case
  proof (cases "i < length gates")
    case False
    with 3 show ?thesis by simp
  next
    case True
    show ?thesis
    proof (cases "snd (gates ! i)")
      case (Nand in0 in1)
      from "3.prems" True Nand obtain a where a: "getValue n gates in0 = Inr a"
        by (auto split: sum.splits)
      have a': "getValue (n + k) gates in0 = Inr a"
        using "3.IH"(1) [OF True Nand a] .
      show ?thesis
      proof (cases a)
        case False
        with "3.prems" True Nand a a' show ?thesis by simp
      next
        case at: True
        from "3.prems" True Nand a at obtain c where c: "getValue n gates in1 = Inr c"
          by (auto split: sum.splits)
        have "getValue (n + k) gates in1 = Inr c"
          using "3.IH"(2) [OF True Nand a at c] .
        with "3.prems" True Nand a a' at c show ?thesis by simp
      qed
    qed (use "3.prems" True in auto)
  qed
qed

lemma tick1_mono:
  "tick1 n i st = Inr st' \<Longrightarrow> tick1 (n + k) i st = Inr st'"
  by (cases st) (auto split: gate.splits sum.splits dest: getValue_mono [where k = k])

lemma tick1_loop_mono:
  "tick1_loop n is st = Inr st' \<Longrightarrow> tick1_loop (n + k) is st = Inr st'"
proof (induction "is" arbitrary: st)
  case Nil
  then show ?case by simp
next
  case (Cons i "is")
  from Cons.prems obtain st1 where s: "tick1 n i st = Inr st1" and r: "tick1_loop n is st1 = Inr st'"
    by (auto split: sum.splits)
  from tick1_mono [OF s] Cons.IH [OF r] show ?case by simp
qed

lemma tick_mono: "tick n st = Inr st' \<Longrightarrow> tick (n + k) st = Inr st'"
  unfolding tick_def
  by (auto split: sum.splits prod.splits dest: tick1_loop_mono [where k = k])

lemma ticks_mono: "ticks n m st = Inr st' \<Longrightarrow> ticks (n + k) m st = Inr st'"
proof (induction m arbitrary: st)
  case 0
  then show ?case by simp
next
  case (Suc m)
  from Suc.prems obtain st1 where s: "tick n st = Inr st1" and r: "ticks n m st1 = Inr st'"
    by (auto split: sum.splits)
  from tick_mono [OF s] Suc.IH [OF r] show ?case by simp
qed

lemma read_outputs_mono:
  "read_outputs n gates test is = Inr bs \<Longrightarrow> read_outputs (n + k) gates test is = Inr bs"
proof (induction "is" arbitrary: bs)
  case Nil
  then show ?case by simp
next
  case (Cons i "is")
  from Cons.prems obtain p b bs' where
    p: "getOutput test i = Inr p" and b: "getValue n gates p = Inr b"
    and r: "read_outputs n gates test is = Inr bs'" and bs: "bs = b # bs'"
    by (auto split: sum.splits)
  from getValue_mono [OF b] Cons.IH [OF r] p bs show ?case by simp
qed

lemma outputs_after_mono:
  assumes "outputs_after proto heimdall builder args n m = Inr bs"
  shows "outputs_after proto heimdall builder args (n + k) m = Inr bs"
proof -
  from assms obtain test h1 test' h2 h3 out where
    a: "instantiate proto heimdall builder = Inr (test, h1)"
    and b: "link test args h1 = Inr (test', h2)"
    and c: "ticks n m (h2, []) = Inr (h3, out)"
    and d: "read_outputs n h3 test' [0..<protoNumOutputs proto] = Inr bs"
    unfolding outputs_after_def by (auto split: sum.splits prod.splits)
  from ticks_mono [OF c] read_outputs_mono [OF d] a b show ?thesis
    unfolding outputs_after_def by simp
qed

section \<open>The clock\<close>

lemma clk1: "outputs_after clkPrototype [] [] [] 2 1 = Inr [True]"
  by code_simp

lemma clk2: "outputs_after clkPrototype [] [] [] 2 2 = Inr [False]"
  by code_simp

lemma clk3: "outputs_after clkPrototype [] [] [] 2 3 = Inr [True]"
  by code_simp

lemma clk4: "outputs_after clkPrototype [] [] [] 2 4 = Inr [False]"
  by code_simp

text \<open>
  C1, as the claim states it, fails: the clock instantiated alone in an empty arena and
  linked with no inputs does not read \<open>false, true, false, true\<close> after its ticks 1 to 4.
  The register starts at \<open>false\<close>, its input is the negation of its output, so the first
  tick already commits \<open>true\<close>.
\<close>

theorem clock_sequence_counterexample:
  "[outputs_after clkPrototype [] [] [] 2 1,
    outputs_after clkPrototype [] [] [] 2 2,
    outputs_after clkPrototype [] [] [] 2 3,
    outputs_after clkPrototype [] [] [] 2 4]
     \<noteq> [Inr [False], Inr [True], Inr [False], Inr [True]]"
  using clk1 by simp

text \<open>
  C1, amended: the committed values of the clock's register read after ticks 1, 2, 3 and
  4 are \<open>true, false, true, false\<close>, whatever the depth of the call stack from two
  frames on (the register reads the nand gate, which reads the register).
\<close>

theorem clock_sequence:
  "[outputs_after clkPrototype [] [] [] (2 + k) 1,
    outputs_after clkPrototype [] [] [] (2 + k) 2,
    outputs_after clkPrototype [] [] [] (2 + k) 3,
    outputs_after clkPrototype [] [] [] (2 + k) 4]
     = [Inr [True], Inr [False], Inr [True], Inr [False]]"
  using outputs_after_mono [OF clk1, of k] outputs_after_mono [OF clk2, of k]
    outputs_after_mono [OF clk3, of k] outputs_after_mono [OF clk4, of k]
  by simp

section \<open>Failures of link\<close>

text \<open>
  C2: a placement's input id that no placement produces and that is no outer input id.
  The claim asks \<open>link\<close> to fail and name the missing net.  On \<open>danglingPrototype\<close>,
  whose nand gate reads the net \<open>missing\<close>, \<open>instantiate\<close> succeeds and \<open>link\<close> returns
  normally: \<open>everything[inputs[i]]\<close> has added \<open>missing\<close> to the table with a null
  pointer, and both inputs of the nand gate are null.
\<close>

theorem link_missing_net_wires_null:
  "instantiate danglingPrototype [] [] =
     Inr (Circuit Init [(''out'', Some 0)] [GateCircuit (Some 0)] danglingPrototype,
          [(''[dangling] [nand] '', Nand None None)])
   \<and> link (Circuit Init [(''out'', Some 0)] [GateCircuit (Some 0)] danglingPrototype) []
        [(''[dangling] [nand] '', Nand None None)] =
     Inr (Circuit Linked [(''out'', Some 0), (''missing'', None)] [GateCircuit (Some 0)]
            danglingPrototype,
          [(''[dangling] [nand] '', Nand None None)])"
  by (simp add: danglingPrototype_def nandPrototype_def new_GateCircuit_def addGate_def
      addType_def insert_entry_def subscript_def upt_rec)



text \<open>
  A composite circuit that \<open>link\<close> has returned is in the state \<open>Linked\<close>, and every
  further \<open>link\<close> of it, with any arguments and any arena, fails on the assertion
  \<open>state == Init\<close> with the arena untouched.
\<close>

lemma relink_composite_fails:
  assumes "link (Circuit st everything circuits parent) args gates = Inr (c', gates')"
  shows "\<exists>everything' circuits'. c' = Circuit Linked everything' circuits' parent
     \<and> (\<forall>args2 gates2. link c' args2 gates2 = Inl (AssertionFailed ''state == Init'', gates2))"
  using assms by (auto split: if_splits sum.splits)

lemma relink_composite_fails_example:
  "\<exists>everything' circuits'.
     Circuit Linked [(''not'', Some 1), (''in'', Some 0)] [GateCircuit (Some 1)] notPrototype
       = Circuit Linked everything' circuits' notPrototype
     \<and> (\<forall>args2 gates2.
          link (Circuit Linked [(''not'', Some 1), (''in'', Some 0)] [GateCircuit (Some 1)]
                  notPrototype) args2 gates2
            = Inl (AssertionFailed ''state == Init'', gates2))"
proof -
  have "link (Circuit Init [(''not'', Some 1)] [GateCircuit (Some 1)] notPrototype) [Some 0]
          [(''[low] '', LowOutput), (''[not] [nand] '', Nand None None)]
        = Inr (Circuit Linked [(''not'', Some 1), (''in'', Some 0)] [GateCircuit (Some 1)]
                 notPrototype,
               [(''[low] '', LowOutput), (''[not] [nand] '', Nand (Some 0) (Some 0))])"
    by (simp add: notPrototype_def nandPrototype_def insert_entry_def subscript_def upt_rec)
  from relink_composite_fails [OF this] show ?thesis .
qed

text \<open>
  C4: a circuit that has been linked once is not to be linked again; the second \<open>link\<close>
  is to fail.  \<open>Circuit::link\<close> asserts \<open>state == Init\<close>, as shown above.
  \<open>GateCircuit::link\<close> has no such assertion: on the circuit of a nand gate that
  \<open>instantiate\<close> has returned, the first \<open>link\<close> returns, and the second \<open>link\<close>, of
  the same circuit in the arena that the first one left, returns as well, having
  overwritten the inputs that the first one wrote.
\<close>

theorem relink_primitive_returns:
  "instantiate nandPrototype [] [] =
     Inr (GateCircuit (Some 0), [(''[nand] '', Nand None None)])
   \<and> link (GateCircuit (Some 0)) [Some 0, Some 0] [(''[nand] '', Nand None None)]
     = Inr (GateCircuit (Some 0), [(''[nand] '', Nand (Some 0) (Some 0))])
   \<and> link (GateCircuit (Some 0)) [None, None] [(''[nand] '', Nand (Some 0) (Some 0))]
     = Inr (GateCircuit (Some 0), [(''[nand] '', Nand None None)])"
  by (simp add: nandPrototype_def new_GateCircuit_def addGate_def addType_def upt_rec)

section \<open>The probe\<close>

text \<open>
  C10: \<open>getValue\<close> of a \<open>TickOutputOnly\<close> gate fails on \<open>assert(false)\<close> as soon as it is
  called, and returns a value at no depth of the call stack.  Its pointer can be
  stored as the input of another gate; a nand gate or a register that then reads that
  input fails on the same assertion.
\<close>

theorem probe_getValue_asserts:
  assumes "i < length gates" and "snd (gates ! i) = TickOutputOnly in0 t nm"
  shows "getValue (Suc n) gates (Some i) = Inl (AssertionFailed ''false'')
    \<and> (\<forall>fuel b. getValue fuel gates (Some i) \<noteq> Inr b)
    \<and> setInput (Register p v nv) 0 (Some i) = Inr (Register (Some i) v nv)
    \<and> getValue (Suc (Suc n)) (gates @ [(nm', Nand (Some i) q)]) (Some (length gates))
        = Inl (AssertionFailed ''false'')
    \<and> tick1 (Suc n) (length gates) (gates @ [(nm', Register (Some i) v nv)], out)
        = Inl (AssertionFailed ''false'')"
proof -
  have a: "getValue (Suc m) gates (Some i) = Inl (AssertionFailed ''false'')" for m
    using assms by simp
  have b: "getValue fuel gates (Some i) \<noteq> Inr b" for fuel b
    using a by (cases fuel) simp_all
  have c: "getValue (Suc m) (gates @ more) (Some i) = Inl (AssertionFailed ''false'')"
    for m more
    using assms by (simp add: nth_append)
  show ?thesis
    using a b c [of _ "[(nm', Nand (Some i) q)]"] c [of n "[(nm', Register (Some i) v nv)]"]
    by simp
qed

theorem probe_getValue_asserts_witness:
  "getValue 1 [(''[tick - outputonly] '', TickOutputOnly None 0 ''clk'')] (Some 0)
     = Inl (AssertionFailed ''false'')"
  using probe_getValue_asserts [of 0
      "[(''[tick - outputonly] '', TickOutputOnly None 0 ''clk'')]" None 0 "''clk''" 0]
  by simp

section \<open>The table of a composite circuit\<close>

lemma map_of_insert_entry:
  "map_of (insert_entry ev k v) k' =
     (if map_of ev k = None \<and> k' = k then Some v else map_of ev k')"
  by (auto simp: insert_entry_def map_add_def split: option.splits)

lemma register_outputs_Inr:
  assumes "register_outputs c outs is ev = Inr ev'"
  shows "(\<forall>i\<in>set is. i < length outs)
    \<and> distinct (map ((!) outs) is)
    \<and> (\<forall>i\<in>set is. map_of ev (outs ! i) = None)
    \<and> (\<forall>k. map_of ev k \<noteq> None \<longrightarrow> map_of ev' k = map_of ev k)
    \<and> (\<forall>i\<in>set is. \<exists>p. getOutput c i = Inr p \<and> map_of ev' (outs ! i) = Some p)
    \<and> dom (map_of ev') = dom (map_of ev) \<union> (!) outs ` set is"
  using assms
proof (induction "is" arbitrary: ev)
  case Nil
  then show ?case by simp
next
  case (Cons i "is")
  from Cons.prems obtain p where
    i: "i < length outs" and new: "map_of ev (outs ! i) = None"
    and p: "getOutput c i = Inr p"
    and r: "register_outputs c outs is (insert_entry ev (outs ! i) p) = Inr ev'"
    by (auto split: if_splits sum.splits)
  let ?ev1 = "insert_entry ev (outs ! i) p"
  note IH = Cons.IH [OF r]
  have m1: "map_of ?ev1 k = (if k = outs ! i then Some p else map_of ev k)" for k
    using new by (simp add: map_of_insert_entry)
  have keep: "map_of ev' (outs ! i) = Some p"
    using IH m1 by auto
  have a: "\<forall>j\<in>set (i # is). j < length outs" using IH i by simp
  have b: "distinct (map ((!) outs) (i # is))"
  proof -
    have "outs ! i \<notin> (!) outs ` set is"
    proof
      assume "outs ! i \<in> (!) outs ` set is"
      then obtain j where "j \<in> set is" "outs ! j = outs ! i" by auto
      with IH have "map_of ?ev1 (outs ! i) = None" by metis
      with m1 show False by simp
    qed
    with IH show ?thesis by simp
  qed
  have c: "\<forall>j\<in>set (i # is). map_of ev (outs ! j) = None"
  proof
    fix j assume "j \<in> set (i # is)"
    then consider "j = i" | "j \<in> set is" by auto
    then show "map_of ev (outs ! j) = None"
    proof cases
      case 1
      with new show ?thesis by simp
    next
      case 2
      with IH have "map_of ?ev1 (outs ! j) = None" by blast
      then show ?thesis by (simp add: m1 split: if_splits)
    qed
  qed
  have d: "\<forall>k. map_of ev k \<noteq> None \<longrightarrow> map_of ev' k = map_of ev k"
  proof (intro allI impI)
    fix k assume k: "map_of ev k \<noteq> None"
    with new have "k \<noteq> outs ! i" by auto
    with k have "map_of ?ev1 k = map_of ev k" "map_of ?ev1 k \<noteq> None" by (simp_all add: m1)
    with IH show "map_of ev' k = map_of ev k" by metis
  qed
  have e: "\<forall>j\<in>set (i # is). \<exists>q. getOutput c j = Inr q \<and> map_of ev' (outs ! j) = Some q"
    using IH p keep by auto
  have f: "dom (map_of ev') = dom (map_of ev) \<union> (!) outs ` set (i # is)"
  proof -
    have "dom (map_of ?ev1) = insert (outs ! i) (dom (map_of ev))"
      by (auto simp: m1 dom_def)
    with IH show ?thesis by auto
  qed
  from a b c d e f show ?case by blast
qed

lemma register_outputs_all:
  assumes "register_outputs c outs [0..<length outs] ev = Inr ev'"
  shows "distinct outs \<and> set outs \<inter> dom (map_of ev) = {}
    \<and> (\<forall>k. map_of ev k \<noteq> None \<longrightarrow> map_of ev' k = map_of ev k)
    \<and> (\<forall>m<length outs. \<exists>p. getOutput c m = Inr p \<and> map_of ev' (outs ! m) = Some p)
    \<and> dom (map_of ev') = dom (map_of ev) \<union> set outs"
proof -
  note R = register_outputs_Inr [OF assms]
  have img: "(!) outs ` set [0..<length outs] = set outs"
    by (metis map_nth set_map)
  have "distinct outs" using R by (simp add: map_nth)
  moreover have "set outs \<inter> dom (map_of ev) = {}"
  proof -
    have "\<forall>k\<in>set outs. map_of ev k = None"
      using R by (auto simp: in_set_conv_nth)
    then show ?thesis by (auto simp: dom_def)
  qed
  moreover have "\<forall>m<length outs. \<exists>p. getOutput c m = Inr p \<and> map_of ev' (outs ! m) = Some p"
    using R by simp
  ultimately show ?thesis using R img by simp
qed


lemma instantiate_commands_Inr:
  assumes "instantiate_commands cmds tn heimdall builder ev cs = Inr (ev', cs', heimdall')"
    and "addPrototype_oks cmds"
  shows "distinct (all_outputs cmds)
    \<and> set (all_outputs cmds) \<inter> dom (map_of ev) = {}
    \<and> dom (map_of ev') = dom (map_of ev) \<union> set (all_outputs cmds)
    \<and> (\<forall>k. map_of ev k \<noteq> None \<longrightarrow> map_of ev' k = map_of ev k)
    \<and> length cs' = length cs + length cmds
    \<and> take (length cs) cs' = cs
    \<and> (\<forall>j<length cmds. \<forall>m<length (cmd_outputs (cmds ! j)).
          \<exists>p. getOutput (cs' ! (length cs + j)) m = Inr p
             \<and> map_of ev' (cmd_outputs (cmds ! j) ! m) = Some p)"
  using assms
proof (induction cmds arbitrary: heimdall ev cs)
  case Nil
  then show ?case by simp
next
  case (Cons cmd rest)
  obtain x inputs outputs childId where cmd: "cmd = ChildData x inputs outputs childId"
    by (cases cmd)
  from Cons.prems(2) cmd have n: "protoNumOutputs x = length outputs"
    and ok: "addPrototype_oks rest" by simp_all
  from Cons.prems(1) cmd n obtain b2 c h1 ev1 where
    i: "instantiate x heimdall b2 = Inr (c, h1)"
    and r: "register_outputs c outputs [0..<length outputs] ev = Inr ev1"
    and k: "instantiate_commands rest tn h1 builder ev1 (cs @ [c]) = Inr (ev', cs', heimdall')"
    by (auto simp: Let_def split: sum.splits if_splits)
  note R = register_outputs_all [OF r]
  note IH = Cons.IH [OF k ok]
  have len: "length cs' = length cs + length (cmd # rest)" using IH by simp
  have tk: "take (length cs) cs' = cs \<and> cs' ! length cs = c"
  proof -
    from IH have t: "take (Suc (length cs)) cs' = cs @ [c]" by simp
    then have "take (length cs) (take (Suc (length cs)) cs') = cs" by simp
    then have "take (length cs) cs' = cs" by (simp add: min_def)
    moreover from t have "take (Suc (length cs)) cs' ! length cs = c" by simp
    then have "cs' ! length cs = c" by simp
    ultimately show ?thesis by simp
  qed
  have keep: "map_of ev1 k \<noteq> None \<Longrightarrow> map_of ev' k = map_of ev1 k" for k
    using IH by blast
  have d1: "distinct (all_outputs (cmd # rest))"
  proof -
    have "set outputs \<inter> set (all_outputs rest) = {}"
      using IH R by auto
    with IH R cmd show ?thesis by simp
  qed
  have d2: "set (all_outputs (cmd # rest)) \<inter> dom (map_of ev) = {}"
    using IH R cmd by auto
  have d3: "dom (map_of ev') = dom (map_of ev) \<union> set (all_outputs (cmd # rest))"
    using IH R cmd by auto
  have d4: "\<forall>k. map_of ev k \<noteq> None \<longrightarrow> map_of ev' k = map_of ev k"
  proof (intro allI impI)
    fix k assume a: "map_of ev k \<noteq> None"
    with R have "map_of ev1 k = map_of ev k" by blast
    with a keep [of k] show "map_of ev' k = map_of ev k" by simp
  qed
  have d5: "\<forall>j<length (cmd # rest). \<forall>m<length (cmd_outputs ((cmd # rest) ! j)).
      \<exists>p. getOutput (cs' ! (length cs + j)) m = Inr p
         \<and> map_of ev' (cmd_outputs ((cmd # rest) ! j) ! m) = Some p"
  proof (intro allI impI)
    fix j m
    assume j: "j < length (cmd # rest)" and m: "m < length (cmd_outputs ((cmd # rest) ! j))"
    show "\<exists>p. getOutput (cs' ! (length cs + j)) m = Inr p
         \<and> map_of ev' (cmd_outputs ((cmd # rest) ! j) ! m) = Some p"
    proof (cases j)
      case 0
      with m cmd have m': "m < length outputs" by simp
      with R obtain p where p: "getOutput c m = Inr p" "map_of ev1 (outputs ! m) = Some p"
        by blast
      with keep [of "outputs ! m"] have "map_of ev' (outputs ! m) = Some p" by simp
      with p 0 cmd tk show ?thesis by simp
    next
      case (Suc j')
      with j m have "j' < length rest" "m < length (cmd_outputs (rest ! j'))" by simp_all
      with IH obtain p where "getOutput (cs' ! (length (cs @ [c]) + j')) m = Inr p"
        "map_of ev' (cmd_outputs (rest ! j') ! m) = Some p" by blast
      with Suc show ?thesis by simp
    qed
  qed
  from d1 d2 d3 d4 d5 len tk show ?case by blast
qed

lemma register_outputs_error:
  assumes "register_outputs c outs is ev = Inl e" and "\<forall>i\<in>set is. i < length outs"
    and "\<And>i e'. getOutput c i = Inl e' \<Longrightarrow> \<exists>a. e' = AssertionFailed a"
  shows "\<exists>a. e = AssertionFailed a"
  using assms(1,2)
proof (induction "is" arbitrary: ev)
  case Nil
  then show ?case by simp
next
  case (Cons i "is")
  then show ?case using assms(3)
    by (auto split: if_splits sum.splits)
qed

lemma getOutput_error: "getOutput c i = Inl e \<Longrightarrow> \<exists>a. e = AssertionFailed a"
  by (cases c) (auto split: if_splits)

lemma instantiate_error:
  "instantiate proto heimdall builder = Inl e \<Longrightarrow> addPrototype_ok proto
     \<Longrightarrow> \<exists>a. e = AssertionFailed a"
  "instantiate_commands cmds tn heimdall builder ev cs = Inl e \<Longrightarrow> addPrototype_oks cmds
     \<Longrightarrow> \<exists>a. e = AssertionFailed a"
proof (induction proto heimdall builder and cmds tn heimdall builder ev cs
    arbitrary: e and e rule: instantiate_instantiate_commands.induct)
  case (1 T heimdall builder)
  then show ?case by simp
next
  case (2 nm heimdall builder)
  then show ?case by simp
next
  case (3 tn ins outs cmds heimdall builder)
  from "3.prems" obtain e' where "instantiate_commands cmds tn heimdall builder [] [] = Inl e'"
    and "e = e'" by (auto split: sum.splits)
  with "3.IH" "3.prems"(2) show ?case by simp
next
  case (4 tn heimdall builder everything circuits)
  then show ?case by simp
next
  case (5 x inputs outputs childId rest tn heimdall builder everything circuits)
  let ?b1 = "addType builder tn"
  let ?b2 = "if childId \<noteq> [] then addChildId ?b1 childId else ?b1"
  from "5.prems"(2) have okx: "addPrototype_ok x" and okr: "addPrototype_oks rest"
    and n: "protoNumOutputs x = length outputs" by simp_all
  show ?case
  proof (cases "instantiate x heimdall ?b2")
    case (Inl e')
    with "5.prems"(1) have "e = e'" by (simp add: Let_def)
    with "5.IH"(1) [OF refl refl Inl okx] show ?thesis by simp
  next
    case (Inr r)
    obtain c h1 where r: "r = (c, h1)" by (cases r)
    show ?thesis
    proof (cases "register_outputs c outputs [0..<protoNumOutputs x] everything")
      case (Inl e')
      with "5.prems"(1) Inr r have "e = e'" by (simp add: Let_def)
      with register_outputs_error [OF Inl] n getOutput_error show ?thesis by auto
    next
      case ev1: (Inr ev1)
      with "5.prems"(1) Inr r have
        "instantiate_commands rest tn h1 builder ev1 (circuits @ [c]) = Inl e"
        by (simp add: Let_def)
      from "5.IH"(2) [OF refl refl Inr r [symmetric] ev1 this okr] show ?thesis .
    qed
  qed
qed


lemma subscript_props:
  assumes "subscript ev k = (p, ev')"
  shows "map_of ev' k = Some p \<and> (\<forall>k'. map_of ev k' \<noteq> None \<longrightarrow> map_of ev' k' = map_of ev k')"
  using assms
  by (auto simp: subscript_def map_add_def split: option.splits)

lemma resolve_props:
  assumes "resolve ks ev data0 = (data, ev')"
  shows "(\<forall>k. map_of ev k \<noteq> None \<longrightarrow> map_of ev' k = map_of ev k)
    \<and> length data = length data0 + length ks
    \<and> take (length data0) data = data0
    \<and> (\<forall>q<length ks. map_of ev' (ks ! q) = Some (data ! (length data0 + q)))"
  using assms
proof (induction ks arbitrary: ev data0)
  case Nil
  then show ?case by simp
next
  case (Cons k ks)
  obtain p ev1 where s: "subscript ev k = (p, ev1)" by (cases "subscript ev k")
  with Cons.prems have r: "resolve ks ev1 (data0 @ [p]) = (data, ev')" by simp
  note S = subscript_props [OF s]
  note IH = Cons.IH [OF r]
  have keep: "map_of ev1 k' \<noteq> None \<Longrightarrow> map_of ev' k' = map_of ev1 k'" for k'
    using IH by blast
  have tk: "take (length data0) data = data0 \<and> data ! length data0 = p"
  proof -
    from IH have t: "take (Suc (length data0)) data = data0 @ [p]" by simp
    then have "take (length data0) (take (Suc (length data0)) data) = data0" by simp
    then have "take (length data0) data = data0" by (simp add: min_def)
    moreover from t have "take (Suc (length data0)) data ! length data0 = p" by simp
    then have "data ! length data0 = p" by simp
    ultimately show ?thesis by simp
  qed
  have a: "\<forall>k'. map_of ev k' \<noteq> None \<longrightarrow> map_of ev' k' = map_of ev k'"
  proof (intro allI impI)
    fix k' assume h: "map_of ev k' \<noteq> None"
    with S have "map_of ev1 k' = map_of ev k'" by blast
    with h keep [of k'] show "map_of ev' k' = map_of ev k'" by simp
  qed
  have b: "\<forall>q<length (k # ks). map_of ev' ((k # ks) ! q) = Some (data ! (length data0 + q))"
  proof (intro allI impI)
    fix q assume q: "q < length (k # ks)"
    show "map_of ev' ((k # ks) ! q) = Some (data ! (length data0 + q))"
    proof (cases q)
      case 0
      from S keep [of k] have "map_of ev' k = Some p" by simp
      with 0 tk show ?thesis by simp
    next
      case (Suc q')
      with q IH show ?thesis by simp
    qed
  qed
  from a b tk IH show ?case by simp
qed

lemma link_circuits_chain:
  assumes "link_circuits cs cmds ev gates = Inr (cs', ev', gates')"
  shows "length cs \<le> length cmds \<and> length cs' = length cs
    \<and> (\<forall>k. map_of ev k \<noteq> None \<longrightarrow> map_of ev' k = map_of ev k)
    \<and> (\<exists>Gs. length Gs = Suc (length cs) \<and> Gs ! 0 = gates \<and> Gs ! length cs = gates'
          \<and> (\<forall>j<length cs.
                link (cs ! j) (lookup_all ev' (cmd_inputs (cmds ! j))) (Gs ! j)
                  = Inr (cs' ! j, Gs ! Suc j)))"
  using assms
proof (induction cs arbitrary: cmds ev gates cs')
  case Nil
  then have "gates' = gates" "ev' = ev" "cs' = []" by simp_all
  then have "length [gates] = Suc (length ([]::circuit list)) \<and> [gates] ! 0 = gates
      \<and> [gates] ! length ([]::circuit list) = gates'" by simp
  with \<open>ev' = ev\<close> \<open>cs' = []\<close> show ?case by (intro conjI exI [of _ "[gates]"]) simp_all
next
  case (Cons c cs)
  from Cons.prems obtain desc rest where cmds: "cmds = desc # rest"
    by (cases cmds) auto
  obtain data ev1 where rs: "resolve (cmd_inputs desc) ev [] = (data, ev1)"
    by (cases "resolve (cmd_inputs desc) ev []")
  from Cons.prems cmds rs obtain c' g1 cs1 where
    l: "link c data gates = Inr (c', g1)"
    and r: "link_circuits cs rest ev1 g1 = Inr (cs1, ev', gates')"
    and cs': "cs' = c' # cs1"
    by (auto split: sum.splits)
  note RS = resolve_props [OF rs]
  note IH = Cons.IH [OF r]
  from IH obtain Gs where Gs: "length Gs = Suc (length cs)" "Gs ! 0 = g1"
    "Gs ! length cs = gates'"
    "\<forall>j<length cs. link (cs ! j) (lookup_all ev' (cmd_inputs (rest ! j))) (Gs ! j)
        = Inr (cs1 ! j, Gs ! Suc j)"
    by blast
  have keep: "map_of ev1 k \<noteq> None \<Longrightarrow> map_of ev' k = map_of ev1 k" for k
    using IH by blast
  have a: "\<forall>k. map_of ev k \<noteq> None \<longrightarrow> map_of ev' k = map_of ev k"
  proof (intro allI impI)
    fix k assume h: "map_of ev k \<noteq> None"
    with RS have "map_of ev1 k = map_of ev k" by blast
    with h keep [of k] show "map_of ev' k = map_of ev k" by simp
  qed
  have d: "lookup_all ev' (cmd_inputs desc) = data"
  proof (rule nth_equalityI)
    show "length (lookup_all ev' (cmd_inputs desc)) = length data"
      using RS by (simp add: lookup_all_def)
  next
    fix q assume "q < length (lookup_all ev' (cmd_inputs desc))"
    then have q: "q < length (cmd_inputs desc)" by (simp add: lookup_all_def)
    with RS have "map_of ev1 (cmd_inputs desc ! q) = Some (data ! q)" by simp
    with keep [of "cmd_inputs desc ! q"] have "map_of ev' (cmd_inputs desc ! q) = Some (data ! q)"
      by simp
    with q show "lookup_all ev' (cmd_inputs desc) ! q = data ! q"
      by (simp add: lookup_all_def)
  qed
  let ?Gs = "gates # Gs"
  have b: "\<forall>j<length (c # cs).
      link ((c # cs) ! j) (lookup_all ev' (cmd_inputs (cmds ! j))) (?Gs ! j)
        = Inr (cs' ! j, ?Gs ! Suc j)"
  proof (intro allI impI)
    fix j assume j: "j < length (c # cs)"
    show "link ((c # cs) ! j) (lookup_all ev' (cmd_inputs (cmds ! j))) (?Gs ! j)
        = Inr (cs' ! j, ?Gs ! Suc j)"
    proof (cases j)
      case 0
      with l d Gs(2) cmds cs' show ?thesis by simp
    next
      case (Suc j')
      with j have "j' < length cs" by simp
      with Gs(4) Suc cmds cs' show ?thesis by simp
    qed
  qed
  have "length ?Gs = Suc (length (c # cs)) \<and> ?Gs ! 0 = gates \<and> ?Gs ! length (c # cs) = gates'"
    using Gs by simp
  with b have "\<exists>Gs. length Gs = Suc (length (c # cs)) \<and> Gs ! 0 = gates
      \<and> Gs ! length (c # cs) = gates'
      \<and> (\<forall>j<length (c # cs).
            link ((c # cs) ! j) (lookup_all ev' (cmd_inputs (cmds ! j))) (Gs ! j)
              = Inr (cs' ! j, Gs ! Suc j))"
    by blast
  with a IH cmds cs' show ?case by simp
qed

lemma insert_inputs_keeps:
  "map_of ev k \<noteq> None \<Longrightarrow> map_of (insert_inputs ids args is ev) k = map_of ev k"
proof (induction "is" arbitrary: ev)
  case Nil
  then show ?case by simp
next
  case (Cons i "is")
  have "map_of (insert_entry ev (ids ! i) (args ! i)) k = map_of ev k"
    using Cons.prems by (auto simp: map_of_insert_entry)
  with Cons.IH [of "insert_entry ev (ids ! i) (args ! i)"] Cons.prems show ?case by simp
qed


lemma clk_instantiate:
  "instantiate clkPrototype [] [] =
     Inr (Circuit Init [(''out'', Some 0), (''in'', Some 1)]
            [GateCircuit (Some 0),
             Circuit Init [(''not'', Some 1)] [GateCircuit (Some 1)] notPrototype]
            clkPrototype,
          [(''[clock] [register] '', Register None False False),
           (''[clock] [not] [nand] '', Nand None None)])"
  by (simp add: clkPrototype_def notPrototype_def registerPrototype_def nandPrototype_def
      new_GateCircuit_def addGate_def addType_def insert_entry_def subscript_def upt_rec)


lemma clk_link:
  "link (Circuit Init [(''out'', Some 0), (''in'', Some 1)]
            [GateCircuit (Some 0),
             Circuit Init [(''not'', Some 1)] [GateCircuit (Some 1)] notPrototype]
            clkPrototype) []
          [(''[clock] [register] '', Register None False False),
           (''[clock] [not] [nand] '', Nand None None)] =
     Inr (Circuit Linked [(''out'', Some 0), (''in'', Some 1)]
            [GateCircuit (Some 0),
             Circuit Linked [(''not'', Some 1), (''in'', Some 0)] [GateCircuit (Some 1)]
               notPrototype]
            clkPrototype,
          [(''[clock] [register] '', Register (Some 1) False False),
           (''[clock] [not] [nand] '', Nand (Some 0) (Some 0))])"
  by (simp add: clkPrototype_def notPrototype_def registerPrototype_def nandPrototype_def
      insert_entry_def subscript_def upt_rec)

lemma instantiate_range:
  "instantiate proto A b = Inr (c, A') \<Longrightarrow>
     length A \<le> length A' \<and> gates_of c \<subseteq> {length A..<length A'}"
  "instantiate_commands cmds tn A b ev cs = Inr (ev', cs', A') \<Longrightarrow>
     length A \<le> length A' \<and> length cs' = length cs + length cmds
     \<and> take (length cs) cs' = cs
     \<and> (\<forall>j<length cmds. gates_of (cs' ! (length cs + j)) \<subseteq> {length A..<length A'})
     \<and> (\<forall>j1 j2. j1 < j2 \<and> j2 < length cmds \<longrightarrow>
           gates_of (cs' ! (length cs + j1)) \<inter> gates_of (cs' ! (length cs + j2)) = {})"
proof (induction proto A b and cmds tn A b ev cs arbitrary: c A' and ev' cs' A'
    rule: instantiate_instantiate_commands.induct)
  case (1 T heimdall builder)
  then show ?case by (auto simp: new_GateCircuit_def addGate_def)
next
  case (2 nm heimdall builder)
  then show ?case by (auto simp: new_GateCircuit_def addGate_def)
next
  case (3 tn ins outs cmds heimdall builder)
  from "3.prems" obtain ev cs where
    ic: "instantiate_commands cmds tn heimdall builder [] [] = Inr (ev, cs, A')"
    and c: "c = Circuit Init ev cs (CompositePrototype tn ins outs cmds)"
    by (auto split: sum.splits)
  note IH = "3.IH" [OF ic]
  have "gates_of c \<subseteq> {length heimdall..<length A'}"
  proof
    fix g assume "g \<in> gates_of c"
    with c obtain d where "d \<in> set cs" "g \<in> gates_of d" by auto
    then obtain j where j: "j < length cs" "cs ! j = d" by (auto simp: in_set_conv_nth)
    from IH j have jc: "j < length cmds" by simp
    from IH have "\<forall>j<length cmds. gates_of (cs ! j) \<subseteq> {length heimdall..<length A'}"
      by simp
    with jc have "gates_of (cs ! j) \<subseteq> {length heimdall..<length A'}" by blast
    with j \<open>g \<in> gates_of d\<close> show "g \<in> {length heimdall..<length A'}" by blast
  qed
  with IH show ?case by simp
next
  case (4 tn heimdall builder everything circuits)
  then show ?case by simp
next
  case (5 x inputs outputs childId rest tn heimdall builder everything circuits)
  let ?b2 = "if childId \<noteq> [] then addChildId (addType builder tn) childId else addType builder tn"
  from "5.prems" obtain c A1 ev1 where
    i: "instantiate x heimdall ?b2 = Inr (c, A1)"
    and r: "register_outputs c outputs [0..<protoNumOutputs x] everything = Inr ev1"
    and k: "instantiate_commands rest tn A1 builder ev1 (circuits @ [c]) = Inr (ev', cs', A')"
    by (auto simp: Let_def split: sum.splits)
  note I1 = "5.IH"(1) [OF refl refl i]
  note I2 = "5.IH"(2) [OF refl refl i refl r k]
  let ?n = "length circuits"
  have tk: "take ?n cs' = circuits \<and> cs' ! ?n = c"
  proof -
    from I2 have t: "take (Suc ?n) cs' = circuits @ [c]" by simp
    then have "take ?n (take (Suc ?n) cs') = circuits" by simp
    then have "take ?n cs' = circuits" by (simp add: min_def)
    moreover from t have "take (Suc ?n) cs' ! ?n = c" by simp
    then have "cs' ! ?n = c" by simp
    ultimately show ?thesis by simp
  qed
  have rng: "\<forall>j<length rest. gates_of (cs' ! (Suc ?n + j)) \<subseteq> {length A1..<length A'}"
    using I2 by simp
  have a: "\<forall>j<length (ChildData x inputs outputs childId # rest).
      gates_of (cs' ! (?n + j)) \<subseteq> {length heimdall..<length A'}"
  proof (intro allI impI)
    fix j assume j: "j < length (ChildData x inputs outputs childId # rest)"
    show "gates_of (cs' ! (?n + j)) \<subseteq> {length heimdall..<length A'}"
    proof (cases j)
      case 0
      with tk I1 I2 show ?thesis by auto
    next
      case (Suc j')
      with j rng have "gates_of (cs' ! (Suc ?n + j')) \<subseteq> {length A1..<length A'}" by simp
      with Suc I1 show ?thesis by auto
    qed
  qed
  have b: "\<forall>j1 j2. j1 < j2 \<and> j2 < length (ChildData x inputs outputs childId # rest) \<longrightarrow>
      gates_of (cs' ! (?n + j1)) \<inter> gates_of (cs' ! (?n + j2)) = {}"
  proof (intro allI impI)
    fix j1 j2
    assume h: "j1 < j2 \<and> j2 < length (ChildData x inputs outputs childId # rest)"
    then obtain j2' where j2: "j2 = Suc j2'" "j2' < length rest" by (cases j2) auto
    with rng have r2: "gates_of (cs' ! (Suc ?n + j2')) \<subseteq> {length A1..<length A'}" by simp
    show "gates_of (cs' ! (?n + j1)) \<inter> gates_of (cs' ! (?n + j2)) = {}"
    proof (cases j1)
      case 0
      with tk I1 have r1: "gates_of (cs' ! (?n + j1)) \<subseteq> {length heimdall..<length A1}" by simp
      have "{length heimdall..<length A1} \<inter> {length A1..<length A'} = {}" by auto
      with r1 r2 have "gates_of (cs' ! (?n + j1)) \<inter> gates_of (cs' ! (Suc ?n + j2')) = {}"
        by blast
      with j2 show ?thesis by simp
    next
      case (Suc j1')
      with h j2 have "j1' < j2' \<and> j2' < length rest" by simp
      with I2 have "gates_of (cs' ! (length (circuits @ [c]) + j1'))
          \<inter> gates_of (cs' ! (length (circuits @ [c]) + j2')) = {}" by blast
      with Suc j2 show ?thesis by simp
    qed
  qed
  from a b tk I1 I2 show ?case by simp
qed

lemma link_frame:
  "link c args A = Inr (c', A') \<Longrightarrow>
     length A' = length A \<and> (\<forall>i. i \<notin> gates_of c \<longrightarrow> A' ! i = A ! i)"
  "link_circuits cs cmds ev A = Inr (cs', ev', A') \<Longrightarrow>
     length A' = length A \<and> (\<forall>i. i \<notin> (\<Union>c\<in>set cs. gates_of c) \<longrightarrow> A' ! i = A ! i)"
proof (induction c args A and cs cmds ev A arbitrary: c' A' and cs' ev' A'
    rule: link_link_circuits.induct)
  case (1 c args gates)
  then show ?case by (auto split: option.splits if_splits sum.splits)
next
  case (2 st everything circuits parent args gates)
  from "2.prems" obtain cs' ev' where
    st: "\<not> st \<noteq> Init" and ar: "\<not> length args \<noteq> protoNumInputs parent"
    and lc: "link_circuits circuits (commands parent)
        (insert_inputs (outer_input_ids parent) args [0..<length args] everything) gates
        = Inr (cs', ev', A')"
    by (auto split: if_splits sum.splits)
  from "2.IH" [OF st ar lc] show ?case by simp
next
  case (3 cmds everything gates)
  then show ?case by simp
next
  case (4 c cs everything gates)
  then show ?case by simp
next
  case (5 c cs desc cmds everything gates)
  obtain data ev1 where rs: "resolve (cmd_inputs desc) everything [] = (data, ev1)"
    by (cases "resolve (cmd_inputs desc) everything []")
  from "5.prems" rs obtain c1 g1 cs1 where
    l: "link c data gates = Inr (c1, g1)"
    and r: "link_circuits cs cmds ev1 g1 = Inr (cs1, ev', A')"
    by (auto split: sum.splits)
  note I1 = "5.IH"(1) [OF rs [symmetric] l]
  note I2 = "5.IH"(2) [OF rs [symmetric] l refl r]
  from I1 I2 show ?case by auto
qed

lemma set_inputs_getInput:
  assumes "set_inputs g args [0..<length args] = Inr g'" and "length args = getNumInputs g"
    and "q < length args"
  shows "getInput g' q = Inr (args ! q)"
proof (cases g)
  case LowOutput
  with assms show ?thesis by simp
next
  case (Register in0 v nv)
  with assms obtain a where "args = [a]" by (cases args) auto
  with assms Register show ?thesis by auto
next
  case (Nand in0 in1)
  with assms obtain a b where "args = [a, b]"
    by (cases args; cases "tl args") auto
  with assms Nand show ?thesis by (auto simp: upt_rec less_Suc_eq)
next
  case (TickOutputOnly in0 t nm)
  with assms obtain a where "args = [a]" by (cases args) auto
  with assms TickOutputOnly show ?thesis by auto
next
  case (Input in0 in1 v nm)
  with assms obtain a b where "args = [a, b]"
    by (cases args; cases "tl args") auto
  with assms Input show ?thesis by (auto simp: upt_rec less_Suc_eq)
qed

lemma link_gate_inputs:
  assumes "link (GateCircuit (Some g)) data A = Inr (c', A')" and "q < length data"
  shows "getInput (snd (A' ! g)) q = Inr (data ! q)"
proof -
  from assms(1) obtain g' where
    g: "g < length A" and ar: "length data = getNumInputs (snd (A ! g))"
    and s: "set_inputs (snd (A ! g)) data [0..<length data] = Inr g'"
    and A': "A' = A[g := (fst (A ! g), g')]"
    by (auto split: if_splits sum.splits)
  from set_inputs_getInput [OF s ar assms(2)] g A' show ?thesis by simp
qed

lemma chain_frame:
  assumes "\<forall>j<n. link (cs ! j) (ds j) (Gs ! j) = Inr (cs' ! j, Gs ! Suc j)"
    and "\<forall>j. a \<le> j \<and> j < n \<longrightarrow> g \<notin> gates_of (cs ! j)"
    and "a \<le> m" and "m \<le> n"
  shows "Gs ! m ! g = Gs ! a ! g"
  using assms(3,4)
proof (induction m)
  case 0
  then show ?case by simp
next
  case (Suc m)
  show ?case
  proof (cases "a = Suc m")
    case True
    then show ?thesis by simp
  next
    case False
    with Suc.prems have am: "a \<le> m" "m < n" by simp_all
    with assms(1) have "link (cs ! m) (ds m) (Gs ! m) = Inr (cs' ! m, Gs ! Suc m)" by simp
    from link_frame(1) [OF this] assms(2) am have "Gs ! Suc m ! g = Gs ! m ! g" by simp
    with Suc.IH am show ?thesis by simp
  qed
qed

text \<open>
  C8: a composite prototype whose commands, added through \<open>addPrototype\<close>, give the same
  output id twice.  \<open>instantiate\<close> does not return a circuit: it fails on an assertion
  (that the id is not yet in the table, unless an assertion has failed before it).
\<close>

theorem duplicate_output_id_fails:
  assumes "addPrototype_oks cmds" and "\<not> distinct (all_outputs cmds)"
  shows "\<exists>a. instantiate (CompositePrototype tn ins outs cmds) heimdall builder
           = Inl (AssertionFailed a)"
proof (cases "instantiate_commands cmds tn heimdall builder [] []")
  case (Inl e)
  with instantiate_error(2) [OF Inl assms(1)] show ?thesis by auto
next
  case (Inr r)
  obtain ev' cs' h' where "r = (ev', cs', h')" by (cases r)
  with Inr instantiate_commands_Inr [OF _ assms(1)] assms(2) show ?thesis by blast
qed

theorem duplicate_output_id_fails_witness:
  "\<exists>a. instantiate (CompositePrototype ''test'' [] [''out'']
            [ChildData lowPrototype [] [''out''] [], ChildData lowPrototype [] [''out''] []])
          [] [] = Inl (AssertionFailed a)"
  using duplicate_output_id_fails [of
      "[ChildData lowPrototype [] [''out''] [], ChildData lowPrototype [] [''out''] []]"
      "''test''" "[]" "[''out'']" "[]" "[]"]
  by (simp add: lowPrototype_def)

text \<open>
  C6: when \<open>instantiate\<close> of a composite prototype returns, the keys of the table are
  the output ids of all its commands, each bound to the pointer that \<open>getOutput\<close> of the
  child circuit of its command returns, wherever the command stands in the list.  When
  \<open>link\<close> of that circuit returns, the child circuits have been linked one after the
  other, each with the pointers that the final table holds for the input ids of its
  command; an input id that is the output id of a command, an earlier or a later one,
  stands for the pointer that \<open>getOutput\<close> of that command's circuit returns; and where
  the child is a primitive gate, the input slots of that gate in the final arena hold
  exactly these pointers.
\<close>

theorem forward_references_resolved:
  assumes "addPrototype_oks cmds"
    and "instantiate (CompositePrototype tn ins outs cmds) heimdall builder = Inr (c, gates)"
  shows "\<exists>everything circuits.
      c = Circuit Init everything circuits (CompositePrototype tn ins outs cmds)
    \<and> length circuits = length cmds
    \<and> dom (map_of everything) = set (all_outputs cmds)
    \<and> (\<forall>j<length cmds. \<forall>m<length (cmd_outputs (cmds ! j)).
          \<exists>p. getOutput (circuits ! j) m = Inr p
             \<and> map_of everything (cmd_outputs (cmds ! j) ! m) = Some p)
    \<and> (\<forall>args gates1 c' gates'. link c args gates1 = Inr (c', gates') \<longrightarrow>
          (\<exists>everything' circuits' Gs.
              c' = Circuit Linked everything' circuits' (CompositePrototype tn ins outs cmds)
            \<and> length Gs = Suc (length cmds) \<and> Gs ! 0 = gates1 \<and> Gs ! length cmds = gates'
            \<and> (\<forall>j<length cmds.
                  link (circuits ! j) (lookup_all everything' (cmd_inputs (cmds ! j))) (Gs ! j)
                    = Inr (circuits' ! j, Gs ! Suc j))
            \<and> (\<forall>j<length cmds. \<forall>q<length (cmd_inputs (cmds ! j)).
                  \<forall>j'<length cmds. \<forall>m<length (cmd_outputs (cmds ! j')).
                    cmd_inputs (cmds ! j) ! q = cmd_outputs (cmds ! j') ! m
                      \<longrightarrow> getOutput (circuits ! j') m
                           = Inr (lookup_all everything' (cmd_inputs (cmds ! j)) ! q))
            \<and> (\<forall>j<length cmds. \<forall>g. circuits ! j = GateCircuit (Some g) \<longrightarrow>
                  (\<forall>q<length (cmd_inputs (cmds ! j)).
                     getInput (snd (gates' ! g)) q
                       = Inr (lookup_all everything' (cmd_inputs (cmds ! j)) ! q)))))"
proof -
  let ?P = "CompositePrototype tn ins outs cmds"
  from assms(2) obtain ev cs where
    ic: "instantiate_commands cmds tn heimdall builder [] [] = Inr (ev, cs, gates)"
    and c: "c = Circuit Init ev cs ?P"
    by (auto split: sum.splits)
  note I = instantiate_commands_Inr [OF ic assms(1)]
  note O = instantiate_range(2) [OF ic]
  have len: "length cs = length cmds" using I by simp
  have dom: "dom (map_of ev) = set (all_outputs cmds)" using I by simp
  have reg: "\<forall>j<length cmds. \<forall>m<length (cmd_outputs (cmds ! j)).
          \<exists>p. getOutput (cs ! j) m = Inr p \<and> map_of ev (cmd_outputs (cmds ! j) ! m) = Some p"
    using I by simp
  have disj: "gates_of (cs ! j1) \<inter> gates_of (cs ! j2) = {}"
    if "j1 < j2" "j2 < length cmds" for j1 j2
    using O that by simp
  have lk: "\<exists>everything' circuits' Gs. c' = Circuit Linked everything' circuits' ?P
            \<and> length Gs = Suc (length cmds) \<and> Gs ! 0 = gates1 \<and> Gs ! length cmds = gates'
            \<and> (\<forall>j<length cmds.
                  link (cs ! j) (lookup_all everything' (cmd_inputs (cmds ! j))) (Gs ! j)
                    = Inr (circuits' ! j, Gs ! Suc j))
            \<and> (\<forall>j<length cmds. \<forall>q<length (cmd_inputs (cmds ! j)).
                  \<forall>j'<length cmds. \<forall>m<length (cmd_outputs (cmds ! j')).
                    cmd_inputs (cmds ! j) ! q = cmd_outputs (cmds ! j') ! m
                      \<longrightarrow> getOutput (cs ! j') m
                           = Inr (lookup_all everything' (cmd_inputs (cmds ! j)) ! q))
            \<and> (\<forall>j<length cmds. \<forall>g. cs ! j = GateCircuit (Some g) \<longrightarrow>
                  (\<forall>q<length (cmd_inputs (cmds ! j)).
                     getInput (snd (gates' ! g)) q
                       = Inr (lookup_all everything' (cmd_inputs (cmds ! j)) ! q)))"
    if l: "link c args gates1 = Inr (c', gates')" for args gates1 c' gates'
  proof -
    let ?ev0 = "insert_inputs ins args [0..<length args] ev"
    from l c obtain cs' ev' where
      lc: "link_circuits cs cmds ?ev0 gates1 = Inr (cs', ev', gates')"
      and c': "c' = Circuit Linked ev' cs' ?P"
      by (auto split: if_splits sum.splits)
    note L = link_circuits_chain [OF lc]
    let ?ds = "\<lambda>j. lookup_all ev' (cmd_inputs (cmds ! j))"
    from L len obtain Gs where Gs: "length Gs = Suc (length cmds)" "Gs ! 0 = gates1"
      "Gs ! length cmds = gates'"
      "\<forall>j<length cmds. link (cs ! j) (?ds j) (Gs ! j) = Inr (cs' ! j, Gs ! Suc j)"
      by auto
    have stable: "map_of ev' k = Some p" if "map_of ev k = Some p" for k p
    proof -
      from that have "map_of ?ev0 k = Some p" by (simp add: insert_inputs_keeps)
      with L show ?thesis by (metis option.distinct(1))
    qed
    have res: "getOutput (cs ! j') m = Inr (?ds j ! q)"
      if q: "q < length (cmd_inputs (cmds ! j))" and j': "j' < length cmds"
        and m: "m < length (cmd_outputs (cmds ! j'))"
        and eq: "cmd_inputs (cmds ! j) ! q = cmd_outputs (cmds ! j') ! m" for j q j' m
    proof -
      from reg j' m obtain p where p: "getOutput (cs ! j') m = Inr p"
        "map_of ev (cmd_outputs (cmds ! j') ! m) = Some p" by blast
      from stable [OF p(2)] eq have "map_of ev' (cmd_inputs (cmds ! j) ! q) = Some p" by simp
      with q have "?ds j ! q = p"
        by (simp add: lookup_all_def)
      with p show ?thesis by simp
    qed
    have wired: "getInput (snd (gates' ! g)) q = Inr (?ds j ! q)"
      if j: "j < length cmds" and g: "cs ! j = GateCircuit (Some g)"
        and q: "q < length (cmd_inputs (cmds ! j))" for j g q
    proof -
      from Gs(4) j have "link (cs ! j) (?ds j) (Gs ! j) = Inr (cs' ! j, Gs ! Suc j)"
        by blast
      then have lj: "link (GateCircuit (Some g)) (?ds j) (Gs ! j)
          = Inr (cs' ! j, Gs ! Suc j)" unfolding g .
      from q have "q < length (?ds j)" by (simp add: lookup_all_def)
      from link_gate_inputs [OF lj this]
      have now: "getInput (snd (Gs ! Suc j ! g)) q = Inr (?ds j ! q)" .
      have later: "\<forall>j2. Suc j \<le> j2 \<and> j2 < length cmds \<longrightarrow> g \<notin> gates_of (cs ! j2)"
      proof (intro allI impI)
        fix j2 assume "Suc j \<le> j2 \<and> j2 < length cmds"
        then have "gates_of (cs ! j) \<inter> gates_of (cs ! j2) = {}" by (intro disj) simp_all
        with g show "g \<notin> gates_of (cs ! j2)" by simp
      qed
      from chain_frame [OF Gs(4) later, of "length cmds"] j Gs(3)
      have "gates' ! g = Gs ! Suc j ! g" by simp
      with now show ?thesis by simp
    qed
    show ?thesis
    proof (intro exI conjI)
      show "c' = Circuit Linked ev' cs' ?P" by (rule c')
      show "length Gs = Suc (length cmds)" by (rule Gs(1))
      show "Gs ! 0 = gates1" by (rule Gs(2))
      show "Gs ! length cmds = gates'" by (rule Gs(3))
      show "\<forall>j<length cmds. link (cs ! j) (?ds j) (Gs ! j) = Inr (cs' ! j, Gs ! Suc j)"
        by (rule Gs(4))
      show "\<forall>j<length cmds. \<forall>q<length (cmd_inputs (cmds ! j)).
          \<forall>j'<length cmds. \<forall>m<length (cmd_outputs (cmds ! j')).
            cmd_inputs (cmds ! j) ! q = cmd_outputs (cmds ! j') ! m
              \<longrightarrow> getOutput (cs ! j') m = Inr (?ds j ! q)"
        using res by (intro allI impI)
      show "\<forall>j<length cmds. \<forall>g. cs ! j = GateCircuit (Some g) \<longrightarrow>
          (\<forall>q<length (cmd_inputs (cmds ! j)).
             getInput (snd (gates' ! g)) q = Inr (?ds j ! q))"
        using wired by (intro allI impI)
    qed
  qed
  show ?thesis
  proof (intro exI conjI)
    show "c = Circuit Init ev cs ?P" by (rule c)
    show "length cs = length cmds" by (rule len)
    show "dom (map_of ev) = set (all_outputs cmds)" by (rule dom)
    show "\<forall>j<length cmds. \<forall>m<length (cmd_outputs (cmds ! j)).
          \<exists>p. getOutput (cs ! j) m = Inr p \<and> map_of ev (cmd_outputs (cmds ! j) ! m) = Some p"
      by (rule reg)
    show "\<forall>args gates1 c' gates'. link c args gates1 = Inr (c', gates') \<longrightarrow>
          (\<exists>everything' circuits' Gs.
              c' = Circuit Linked everything' circuits' ?P
            \<and> length Gs = Suc (length cmds) \<and> Gs ! 0 = gates1 \<and> Gs ! length cmds = gates'
            \<and> (\<forall>j<length cmds.
                  link (cs ! j) (lookup_all everything' (cmd_inputs (cmds ! j))) (Gs ! j)
                    = Inr (circuits' ! j, Gs ! Suc j))
            \<and> (\<forall>j<length cmds. \<forall>q<length (cmd_inputs (cmds ! j)).
                  \<forall>j'<length cmds. \<forall>m<length (cmd_outputs (cmds ! j')).
                    cmd_inputs (cmds ! j) ! q = cmd_outputs (cmds ! j') ! m
                      \<longrightarrow> getOutput (cs ! j') m
                           = Inr (lookup_all everything' (cmd_inputs (cmds ! j)) ! q))
            \<and> (\<forall>j<length cmds. \<forall>g. cs ! j = GateCircuit (Some g) \<longrightarrow>
                  (\<forall>q<length (cmd_inputs (cmds ! j)).
                     getInput (snd (gates' ! g)) q
                       = Inr (lookup_all everything' (cmd_inputs (cmds ! j)) ! q))))"
      by (intro allI impI) (rule lk)
  qed
qed

theorem forward_references_resolved_witness:
  "\<exists>everything circuits c' gates'.
      instantiate clkPrototype [] [] =
        Inr (Circuit Init everything circuits clkPrototype,
             [(''[clock] [register] '', Register None False False),
              (''[clock] [not] [nand] '', Nand None None)])
    \<and> length circuits = 2
    \<and> dom (map_of everything) = {''out'', ''in''}
    \<and> link (Circuit Init everything circuits clkPrototype) []
          [(''[clock] [register] '', Register None False False),
           (''[clock] [not] [nand] '', Nand None None)] = Inr (c', gates')
    \<and> circuits ! 0 = GateCircuit (Some 0)
    \<and> getOutput (circuits ! 1) 0 = Inr (Some 1)
    \<and> getInput (snd (gates' ! 0)) 0 = getOutput (circuits ! 1) 0"
proof -
  let ?cmds = "[ChildData registerPrototype [''in''] [''out''] [],
                ChildData notPrototype [''out''] [''in''] []]"
  let ?P = "CompositePrototype ''clock'' [] [''out''] ?cmds"
  let ?G = "[(''[clock] [register] '', Register None False False),
             (''[clock] [not] [nand] '', Nand None None)]"
  let ?ev = "[(''out'', Some 0), (''in'', Some 1)]"
  let ?cs = "[GateCircuit (Some 0),
             Circuit Init [(''not'', Some 1)] [GateCircuit (Some 1)] notPrototype]"
  have P: "clkPrototype = ?P" by (simp add: clkPrototype_def)
  have ok: "addPrototype_oks ?cmds"
    by (simp add: notPrototype_def registerPrototype_def nandPrototype_def)
  have inst: "instantiate ?P [] [] = Inr (Circuit Init ?ev ?cs ?P, ?G)"
    using clk_instantiate by (simp add: clkPrototype_def)
  from clk_link obtain c' gates' where
    l: "link (Circuit Init ?ev ?cs ?P) [] ?G = Inr (c', gates')"
    unfolding P by blast
  from forward_references_resolved [OF ok inst] obtain everything circuits where
    a: "Circuit Init ?ev ?cs ?P = Circuit Init everything circuits ?P"
    and b: "length circuits = length ?cmds"
    and d: "dom (map_of everything) = set (all_outputs ?cmds)"
    and lk: "\<forall>args gates1 c' gates'.
        link (Circuit Init ?ev ?cs ?P) args gates1 = Inr (c', gates') \<longrightarrow>
          (\<exists>everything' circuits' Gs.
              c' = Circuit Linked everything' circuits' ?P
            \<and> length Gs = Suc (length ?cmds) \<and> Gs ! 0 = gates1 \<and> Gs ! length ?cmds = gates'
            \<and> (\<forall>j<length ?cmds.
                  link (circuits ! j) (lookup_all everything' (cmd_inputs (?cmds ! j))) (Gs ! j)
                    = Inr (circuits' ! j, Gs ! Suc j))
            \<and> (\<forall>j<length ?cmds. \<forall>q<length (cmd_inputs (?cmds ! j)).
                  \<forall>j'<length ?cmds. \<forall>m<length (cmd_outputs (?cmds ! j')).
                    cmd_inputs (?cmds ! j) ! q = cmd_outputs (?cmds ! j') ! m
                      \<longrightarrow> getOutput (circuits ! j') m
                           = Inr (lookup_all everything' (cmd_inputs (?cmds ! j)) ! q))
            \<and> (\<forall>j<length ?cmds. \<forall>g. circuits ! j = GateCircuit (Some g) \<longrightarrow>
                  (\<forall>q<length (cmd_inputs (?cmds ! j)).
                     getInput (snd (gates' ! g)) q
                       = Inr (lookup_all everything' (cmd_inputs (?cmds ! j)) ! q))))"
    by blast
  from a have ev: "everything = ?ev" and cs: "circuits = ?cs" by simp_all
  from lk [rule_format, OF l] obtain everything' where
    res: "\<forall>j<length ?cmds. \<forall>q<length (cmd_inputs (?cmds ! j)).
                  \<forall>j'<length ?cmds. \<forall>m<length (cmd_outputs (?cmds ! j')).
                    cmd_inputs (?cmds ! j) ! q = cmd_outputs (?cmds ! j') ! m
                      \<longrightarrow> getOutput (circuits ! j') m
                           = Inr (lookup_all everything' (cmd_inputs (?cmds ! j)) ! q)"
    and wired: "\<forall>j<length ?cmds. \<forall>g. circuits ! j = GateCircuit (Some g) \<longrightarrow>
                  (\<forall>q<length (cmd_inputs (?cmds ! j)).
                     getInput (snd (gates' ! g)) q
                       = Inr (lookup_all everything' (cmd_inputs (?cmds ! j)) ! q))"
    by blast
  from res [rule_format, of 0 0 1 0]
  have r1: "getOutput (circuits ! 1) 0 = Inr (lookup_all everything' [''in''] ! 0)" by simp
  from wired [rule_format, of 0 0 0] cs
  have r2: "getInput (snd (gates' ! 0)) 0 = Inr (lookup_all everything' [''in''] ! 0)" by simp
  have r3: "getOutput (circuits ! 1) 0 = Inr (Some 1)"
    using cs by (simp add: notPrototype_def subscript_def)
  from inst ev cs have "instantiate clkPrototype [] [] =
      Inr (Circuit Init everything circuits clkPrototype, ?G)" by (simp add: P)
  moreover from b have "length circuits = 2" by simp
  moreover from d have "dom (map_of everything) = {''out'', ''in''}" by simp
  moreover from l ev cs have "link (Circuit Init everything circuits clkPrototype) [] ?G
      = Inr (c', gates')" by (simp add: P)
  moreover from cs have "circuits ! 0 = GateCircuit (Some 0)" by simp
  moreover from r1 r2 have "getInput (snd (gates' ! 0)) 0 = getOutput (circuits ! 1) 0" by simp
  ultimately have "instantiate clkPrototype [] [] =
        Inr (Circuit Init everything circuits clkPrototype, ?G)
    \<and> length circuits = 2
    \<and> dom (map_of everything) = {''out'', ''in''}
    \<and> link (Circuit Init everything circuits clkPrototype) [] ?G = Inr (c', gates')
    \<and> circuits ! 0 = GateCircuit (Some 0)
    \<and> getOutput (circuits ! 1) 0 = Inr (Some 1)
    \<and> getInput (snd (gates' ! 0)) 0 = getOutput (circuits ! 1) 0"
    using r3 by simp
  then show ?thesis by (intro exI)
qed

section \<open>The two phases of a tick\<close>

lemma same_committed_refl: "same_committed A A"
  by (simp add: same_committed_def)

lemma same_committed_trans:
  "same_committed A B \<Longrightarrow> same_committed B C \<Longrightarrow> same_committed A C"
  by (simp add: same_committed_def)

lemma same_committed_length: "same_committed A B \<Longrightarrow> length A = length B"
  unfolding same_committed_def by (metis length_map)

lemma same_committed_nth:
  "same_committed A B \<Longrightarrow> i < length A \<Longrightarrow> committed (snd (A ! i)) = committed (snd (B ! i))"
  unfolding same_committed_def
  by (metis (no_types, lifting) comp_apply length_map nth_map)

lemma same_committed_update:
  assumes "i < length A" and "committed g = committed (snd (A ! i))"
  shows "same_committed A (A[i := (nm, g)])"
proof -
  let ?f = "committed \<circ> snd"
  have "(map ?f A)[i := map ?f A ! i] = map ?f A" by (rule list_update_id)
  with assms show ?thesis
    unfolding same_committed_def by (simp add: map_update)
qed

lemma getValue_same_committed:
  "same_committed A B \<Longrightarrow> getValue n A p = getValue n B p"
proof (induction n A p rule: getValue.induct)
  case (1 gates p)
  then show ?case by simp
next
  case (2 n gates)
  then show ?case by simp
next
  case (3 n gates i)
  note len = same_committed_length [OF "3.prems"]
  show ?case
  proof (cases "i < length gates")
    case False
    with len show ?thesis by simp
  next
    case True
    note c = same_committed_nth [OF "3.prems" True]
    show ?thesis
    proof (cases "snd (gates ! i)")
      case (Nand in0 in1)
      with c have B: "snd (B ! i) = Nand in0 in1" by (cases "snd (B ! i)") simp_all
      have a: "getValue n gates in0 = getValue n B in0"
        using "3.IH"(1) [OF True Nand "3.prems"] .
      have b: "getValue n gates in1 = getValue n B in1" if "getValue n gates in0 = Inr True"
        using "3.IH"(2) [OF True Nand that _ "3.prems"] by simp
      show ?thesis
        using True len Nand B a b by (auto split: sum.splits)
    next
      case LowOutput
      with c have "snd (B ! i) = LowOutput" by (cases "snd (B ! i)") simp_all
      with True len LowOutput show ?thesis by simp
    next
      case (Register in0 v nv)
      with c obtain nv' where "snd (B ! i) = Register in0 v nv'"
        by (cases "snd (B ! i)") simp_all
      with True len Register show ?thesis by simp
    next
      case (TickOutputOnly in0 t nm)
      with c obtain t' where "snd (B ! i) = TickOutputOnly in0 t' nm"
        by (cases "snd (B ! i)") simp_all
      with True len TickOutputOnly show ?thesis by simp
    next
      case (Input in0 in1 v nm)
      with c have "snd (B ! i) = Input in0 in1 v nm" by (cases "snd (B ! i)") simp_all
      with True len Input show ?thesis by simp
    qed
  qed
qed

lemma tick1_same_committed:
  assumes "tick1 fuel i (A, out) = Inr (B, out')" and "i < length A"
  shows "same_committed A B \<and> (\<forall>j. j \<noteq> i \<longrightarrow> B ! j = A ! j)"
  using assms
  by (cases "snd (A ! i)") (auto split: sum.splits intro!: same_committed_update simp: same_committed_refl)

lemma tick1_loop_same_committed:
  assumes "tick1_loop fuel is (A, out) = Inr (B, out')" and "\<forall>i\<in>set is. i < length A"
  shows "same_committed A B \<and> (\<forall>j. j \<notin> set is \<longrightarrow> B ! j = A ! j)"
  using assms
proof (induction "is" arbitrary: A out)
  case Nil
  then show ?case by (simp add: same_committed_refl)
next
  case (Cons i "is")
  from Cons.prems(1) obtain A1 out1 where
    s: "tick1 fuel i (A, out) = Inr (A1, out1)"
    and r: "tick1_loop fuel is (A1, out1) = Inr (B, out')"
    by (auto split: sum.splits)
  from Cons.prems(2) have i: "i < length A" by simp
  note T = tick1_same_committed [OF s i]
  from T have len: "length A1 = length A" by (auto dest: same_committed_length)
  with Cons.prems(2) have "\<forall>i\<in>set is. i < length A1" by simp
  note IH = Cons.IH [OF r this]
  from T IH show ?case by (auto intro: same_committed_trans)
qed

lemma tick1_loop_register:
  assumes "tick1_loop fuel is (A, out) = Inr (B, out')" and "\<forall>j\<in>set is. j < length A"
    and "distinct is" and "i \<in> set is" and "snd (A ! i) = Register in0 v nv"
  shows "\<exists>b. getValue fuel A in0 = Inr b \<and> B ! i = (fst (A ! i), Register in0 v b)"
  using assms
proof (induction "is" arbitrary: A out)
  case Nil
  then show ?case by simp
next
  case (Cons j "is")
  from Cons.prems(1) obtain A1 out1 where
    s: "tick1 fuel j (A, out) = Inr (A1, out1)"
    and r: "tick1_loop fuel is (A1, out1) = Inr (B, out')"
    by (auto split: sum.splits)
  from Cons.prems(2) have j: "j < length A" by simp
  note T = tick1_same_committed [OF s j]
  from T have len: "length A1 = length A" by (auto dest: same_committed_length)
  with Cons.prems(2) have bound: "\<forall>i\<in>set is. i < length A1" by simp
  show ?case
  proof (cases "j = i")
    case True
    with Cons.prems(3) have "i \<notin> set is" by simp
    with tick1_loop_same_committed [OF r bound] have same: "B ! i = A1 ! i" by simp
    from s True Cons.prems(5) j obtain b where
      "getValue fuel A in0 = Inr b" "A1 ! i = (fst (A ! i), Register in0 v b)"
      by (auto split: sum.splits)
    with same show ?thesis by simp
  next
    case False
    with T have eq: "A1 ! i = A ! i" by simp
    from False Cons.prems(4) have "i \<in> set is" by simp
    from Cons.IH [OF r bound _ this] Cons.prems(3,5) eq obtain b where
      "getValue fuel A1 in0 = Inr b" "B ! i = (fst (A ! i), Register in0 v b)"
      by auto
    with getValue_same_committed [of A A1 fuel in0] T show ?thesis by simp
  qed
qed

lemma tick2_props:
  assumes "i < length A"
  shows "length (tick2 i A) = length A \<and> (\<forall>j. j \<noteq> i \<longrightarrow> tick2 i A ! j = A ! j)
    \<and> (snd (A ! i) = Register in0 v nv \<longrightarrow> tick2 i A ! i = (fst (A ! i), Register in0 nv nv))"
  using assms by (cases "snd (A ! i)") auto

lemma tick2_loop_length: "\<forall>j\<in>set is. j < length A \<Longrightarrow> length (tick2_loop is A) = length A"
proof (induction "is" arbitrary: A)
  case Nil
  then show ?case by simp
next
  case (Cons i "is")
  then show ?case using tick2_props [of i A] by simp
qed

lemma tick2_loop_other:
  "\<forall>j\<in>set is. j < length A \<Longrightarrow> i \<notin> set is \<Longrightarrow> tick2_loop is A ! i = A ! i"
proof (induction "is" arbitrary: A)
  case Nil
  then show ?case by simp
next
  case (Cons j "is")
  then show ?case using tick2_props [of j A] by simp
qed

lemma tick2_loop_register:
  assumes "\<forall>j\<in>set is. j < length A" and "distinct is" and "i \<in> set is"
    and "snd (A ! i) = Register in0 v nv"
  shows "tick2_loop is A ! i = (fst (A ! i), Register in0 nv nv)"
  using assms
proof (induction "is" arbitrary: A)
  case Nil
  then show ?case by simp
next
  case (Cons j "is")
  from Cons.prems(1) have j: "j < length A" by simp
  note T = tick2_props [OF j, of in0 v nv]
  from T Cons.prems(1) have bound: "\<forall>k\<in>set is. k < length (tick2 j A)" by simp
  show ?case
  proof (cases "j = i")
    case True
    with Cons.prems(2) have "i \<notin> set is" by simp
    from tick2_loop_other [OF bound this] T True Cons.prems(4) show ?thesis by simp
  next
    case False
    with T have eq: "tick2 j A ! i = A ! i" by simp
    from False Cons.prems(3) have "i \<in> set is" by simp
    from Cons.IH [OF bound _ this] Cons.prems(2,4) eq show ?thesis by simp
  qed
qed


text \<open>
  C5: for a register at position \<open>i\<close> of the arena, holding the committed \<open>value\<close> \<open>v\<close>
  and the staged \<open>nextValue\<close> \<open>nv\<close>.  \<open>getValue\<close> returns \<open>v\<close>.  \<open>tick1\<close> stores the value
  read from input 0 as the staged value and leaves \<open>getValue\<close> at \<open>v\<close>; \<open>tick2\<close> makes
  the staged value the committed one.  In a whole \<open>tick\<close>, after the first loop has run
  over all the gates, the staged value is what input 0 read on the arena as it was
  before the tick, \<open>getValue\<close> still returns \<open>v\<close>, and after the second loop the
  committed value is that staged value.
\<close>

theorem register_two_phase:
  assumes "i < length gates" and "snd (gates ! i) = Register in0 v nv"
  shows "getValue (Suc n) gates (Some i) = Inr v
    \<and> (\<forall>b. getValue fuel gates in0 = Inr b \<longrightarrow>
          tick1 fuel i (gates, out) = Inr (gates[i := (fst (gates ! i), Register in0 v b)], out)
        \<and> getValue (Suc n) (gates[i := (fst (gates ! i), Register in0 v b)]) (Some i) = Inr v)
    \<and> tick2 i gates = gates[i := (fst (gates ! i), Register in0 nv nv)]
    \<and> getValue (Suc n) (tick2 i gates) (Some i) = Inr nv
    \<and> (\<forall>gates1 out1. tick1_loop fuel [0..<length gates] (gates, out) = Inr (gates1, out1) \<longrightarrow>
          (\<exists>b. getValue fuel gates in0 = Inr b
             \<and> gates1 ! i = (fst (gates ! i), Register in0 v b)
             \<and> getValue (Suc n) gates1 (Some i) = Inr v
             \<and> tick fuel (gates, out) = Inr (tick2_loop [0..<length gates1] gates1, out1)
             \<and> tick2_loop [0..<length gates1] gates1 ! i = (fst (gates ! i), Register in0 b b)
             \<and> getValue (Suc n) (tick2_loop [0..<length gates1] gates1) (Some i) = Inr b))"
proof -
  have a: "getValue (Suc n) gates (Some i) = Inr v"
    using assms by simp
  have b: "tick1 fuel i (gates, out) = Inr (gates[i := (fst (gates ! i), Register in0 v b)], out)
        \<and> getValue (Suc n) (gates[i := (fst (gates ! i), Register in0 v b)]) (Some i) = Inr v"
    if "getValue fuel gates in0 = Inr b" for b
    using assms that by simp
  have c: "tick2 i gates = gates[i := (fst (gates ! i), Register in0 nv nv)]"
    using assms by simp
  have d: "getValue (Suc n) (tick2 i gates) (Some i) = Inr nv"
    using assms by simp
  have e: "\<exists>b. getValue fuel gates in0 = Inr b
             \<and> gates1 ! i = (fst (gates ! i), Register in0 v b)
             \<and> getValue (Suc n) gates1 (Some i) = Inr v
             \<and> tick fuel (gates, out) = Inr (tick2_loop [0..<length gates1] gates1, out1)
             \<and> tick2_loop [0..<length gates1] gates1 ! i = (fst (gates ! i), Register in0 b b)
             \<and> getValue (Suc n) (tick2_loop [0..<length gates1] gates1) (Some i) = Inr b"
    if l: "tick1_loop fuel [0..<length gates] (gates, out) = Inr (gates1, out1)" for gates1 out1
  proof -
    have bound: "\<forall>j\<in>set [0..<length gates]. j < length gates" by simp
    from tick1_loop_register [OF l bound _ _ assms(2)] assms(1) obtain b where
      b1: "getValue fuel gates in0 = Inr b" and b2: "gates1 ! i = (fst (gates ! i), Register in0 v b)"
      by auto
    from tick1_loop_same_committed [OF l bound] have len: "length gates1 = length gates"
      by (auto dest: same_committed_length)
    have b3: "getValue (Suc n) gates1 (Some i) = Inr v"
      using b2 len assms(1) by simp
    have b4: "tick fuel (gates, out) = Inr (tick2_loop [0..<length gates1] gates1, out1)"
      using l by (simp add: tick_def)
    have bound1: "\<forall>j\<in>set [0..<length gates1]. j < length gates1" by simp
    have b5: "tick2_loop [0..<length gates1] gates1 ! i = (fst (gates ! i), Register in0 b b)"
      using tick2_loop_register [OF bound1, of i in0 v b] b2 len assms(1) by simp
    have b6: "getValue (Suc n) (tick2_loop [0..<length gates1] gates1) (Some i) = Inr b"
      using b5 tick2_loop_length [OF bound1] len assms(1) by simp
    from b1 b2 b3 b4 b5 b6 show ?thesis by blast
  qed
  from a b c d e show ?thesis by blast
qed

theorem register_two_phase_witness:
  "getValue 1 [(''[clock] [register] '', Register (Some 1) False False),
               (''[clock] [not] [nand] '', Nand (Some 0) (Some 0))] (Some 0) = Inr False
   \<and> tick1 2 0 ([(''[clock] [register] '', Register (Some 1) False False),
                  (''[clock] [not] [nand] '', Nand (Some 0) (Some 0))], [])
       = Inr ([(''[clock] [register] '', Register (Some 1) False True),
               (''[clock] [not] [nand] '', Nand (Some 0) (Some 0))], [])
   \<and> tick 2 ([(''[clock] [register] '', Register (Some 1) False False),
               (''[clock] [not] [nand] '', Nand (Some 0) (Some 0))], [])
       = Inr ([(''[clock] [register] '', Register (Some 1) True True),
               (''[clock] [not] [nand] '', Nand (Some 0) (Some 0))], [])"
  using register_two_phase [of 0
      "[(''[clock] [register] '', Register (Some 1) False False),
        (''[clock] [not] [nand] '', Nand (Some 0) (Some 0))]" "Some 1" False False 0 2 "[]"]
  by (simp add: eval_nat_numeral upt_rec tick_def)


section \<open>The adder\<close>

lemma adder_FFF:
  "outputs_after adderPrototype (three_inputs False False False) [] [Some 0, Some 1, Some 2] 12 0
     = Inr [False, False]"
  by code_simp

lemma adder_TTT:
  "outputs_after adderPrototype (three_inputs True True True) [] [Some 0, Some 1, Some 2] 12 0
     = Inr [True, True]"
  by code_simp


text \<open>
  C9: the 3-input adder, instantiated after three input gates and linked to them.
  With the three inputs reading \<open>false\<close>, output 0 (\<open>value\<close>) and output 1 (\<open>carry\<close>)
  read \<open>false\<close>; with the three inputs reading \<open>true\<close>, both read \<open>true\<close>; at every
  depth of the call stack from 12 frames on.
\<close>

theorem adder_all_false_all_true:
  "outputs_after adderPrototype (three_inputs False False False) [] [Some 0, Some 1, Some 2]
      (12 + k) 0 = Inr [False, False]
   \<and> outputs_after adderPrototype (three_inputs True True True) [] [Some 0, Some 1, Some 2]
      (12 + k) 0 = Inr [True, True]"
  using outputs_after_mono [OF adder_FFF, of k] outputs_after_mono [OF adder_TTT, of k]
  by simp

section \<open>Two arenas\<close>

lemma relocated_length: "relocated k A B \<Longrightarrow> length B = k + length A"
  by (simp add: relocated_def)

lemma relocated_nth:
  assumes "relocated k A B" and "i < length A"
  shows "snd (B ! (k + i)) = shift_gate k (snd (A ! i))"
proof -
  from assms(1) have len: "length B = k + length A"
    and m: "map snd (drop k B) = map (shift_gate k \<circ> snd) A" by (simp_all add: relocated_def)
  from m have "map snd (drop k B) ! i = map (shift_gate k \<circ> snd) A ! i" by simp
  with assms(2) len show ?thesis by simp
qed

lemma relocated_passive:
  assumes "relocated k A B" and "i < k"
  shows "no_tick (snd (B ! i))"
proof -
  from assms(1) have len: "length B = k + length A"
    and p: "list_all (no_tick \<circ> snd) (take k B)" by (simp_all add: relocated_def)
  from p assms(2) len have "(no_tick \<circ> snd) (take k B ! i)" by (simp add: list_all_length)
  with assms(2) show ?thesis by simp
qed

lemma relocatedI:
  assumes "length B = k + length A" and "\<And>i. i < k \<Longrightarrow> no_tick (snd (B ! i))"
    and "\<And>i. i < length A \<Longrightarrow> snd (B ! (k + i)) = shift_gate k (snd (A ! i))"
  shows "relocated k A B"
proof -
  have "list_all (no_tick \<circ> snd) (take k B)"
    using assms(1,2) by (simp add: list_all_length)
  moreover have "map snd (drop k B) = map (shift_gate k \<circ> snd) A"
    using assms(1,3) by (intro nth_equalityI) simp_all
  ultimately show ?thesis using assms(1) by (simp add: relocated_def)
qed

lemma relocated_append:
  assumes "relocated k A B"
  shows "relocated k (A @ [(n, g)]) (B @ [(n', shift_gate k g)])"
  using assms by (simp add: relocated_def)

lemma relocated_update:
  assumes "relocated k A B" and "j < length A"
  shows "relocated k (A[j := (n, g)]) (B[k + j := (n', shift_gate k g)])"
proof (rule relocatedI)
  show "length (B[k + j := (n', shift_gate k g)]) = k + length (A[j := (n, g)])"
    using relocated_length [OF assms(1)] by simp
next
  fix i assume "i < k"
  then show "no_tick (snd (B[k + j := (n', shift_gate k g)] ! i))"
    using relocated_passive [OF assms(1)] by simp
next
  fix i assume "i < length (A[j := (n, g)])"
  then show "snd (B[k + j := (n', shift_gate k g)] ! (k + i)) = shift_gate k (snd (A[j := (n, g)] ! i))"
    using relocated_nth [OF assms(1), of i] relocated_length [OF assms(1)] assms(2)
    by (cases "i = j") simp_all
qed

lemma getValue_relocated:
  "relocated k A B \<Longrightarrow> getValue n B (shift_ptr k p) = getValue n A p"
proof (induction n arbitrary: p)
  case 0
  then show ?case by simp
next
  case (Suc n)
  show ?case
  proof (cases p)
    case None
    then show ?thesis by simp
  next
    case (Some i)
    note len = relocated_length [OF Suc.prems]
    show ?thesis
    proof (cases "i < length A")
      case False
      with Some len show ?thesis by simp
    next
      case True
      note g = relocated_nth [OF Suc.prems True]
      show ?thesis
        using Some True len g Suc.IH [OF Suc.prems]
        by (cases "snd (A ! i)") (simp_all split: sum.splits)
    qed
  qed
qed

lemma map_of_shift_table:
  "map_of (shift_table k ev) x = map_option (shift_ptr k) (map_of ev x)"
  by (induction ev) (auto simp: shift_table_def)

lemma insert_entry_shift:
  "insert_entry (shift_table k ev) x (shift_ptr k p) = shift_table k (insert_entry ev x p)"
  by (simp add: insert_entry_def map_of_shift_table) (simp add: shift_table_def)

lemma subscript_shift:
  "subscript (shift_table k ev) x = (case subscript ev x of (p, ev') \<Rightarrow> (shift_ptr k p, shift_table k ev'))"
  by (cases "map_of ev x") (simp_all add: subscript_def map_of_shift_table, simp_all add: shift_table_def)

lemma getOutput_shift:
  "getOutput (shift_circuit k c) i = map_sum id (shift_ptr k) (getOutput c i)"
  by (cases c) (simp_all add: map_of_shift_table subscript_shift split: prod.splits)

lemma register_outputs_shift:
  "register_outputs (shift_circuit k c) outs is (shift_table k ev)
     = map_sum id (shift_table k) (register_outputs c outs is ev)"
proof (induction "is" arbitrary: ev)
  case Nil
  then show ?case by simp
next
  case (Cons i "is")
  show ?case
    using Cons.IH
    by (cases "getOutput c i")
      (simp_all add: getOutput_shift map_of_shift_table insert_entry_shift)
qed


lemma rel_sum_InlD: "rel_sum R S (Inl a) y \<Longrightarrow> \<exists>b. y = Inl b \<and> R a b"
  by (cases y) simp_all

lemma rel_sum_InrD: "rel_sum R S (Inr a) y \<Longrightarrow> \<exists>b. y = Inr b \<and> S a b"
  by (cases y) simp_all

lemma shift_new_gate: "shift_gate k (new_gate T) = new_gate T"
  by (cases T) simp_all

lemma getType_shift: "getType (shift_gate k g) = getType g"
  by (cases g) simp_all

lemma instantiate_relocated:
  "relocated k A B \<Longrightarrow>
     rel_sum (=) (\<lambda>(c, A') (c', B'). c' = shift_circuit k c \<and> relocated k A' B')
       (instantiate proto A b) (instantiate proto B b')"
  "relocated k A B \<Longrightarrow>
     rel_sum (=) (\<lambda>(ev1, cs1, A') (ev2, cs2, B').
         ev2 = shift_table k ev1 \<and> cs2 = map (shift_circuit k) cs1 \<and> relocated k A' B')
       (instantiate_commands cmds tn A b ev cs)
       (instantiate_commands cmds tn B b' (shift_table k ev) (map (shift_circuit k) cs))"
proof (induction proto A b and cmds tn A b ev cs arbitrary: B b' and B b'
    rule: instantiate_instantiate_commands.induct)
  case (1 T heimdall builder)
  from relocated_append [OF "1.prems", of _ "new_gate T"] relocated_length [OF "1.prems"]
  show ?case by (simp add: new_GateCircuit_def addGate_def shift_new_gate)
next
  case (2 nm heimdall builder)
  from relocated_append [OF "2.prems", of _ "TickOutputOnly None 0 nm"]
    relocated_length [OF "2.prems"]
  show ?case by (simp add: new_GateCircuit_def addGate_def)
next
  case (3 tn ins outs cmds heimdall builder)
  from "3.IH" [OF "3.prems", of b'] show ?case
    by (cases "instantiate_commands cmds tn heimdall builder [] []")
      (auto simp: shift_table_def dest!: rel_sum_InlD rel_sum_InrD)
next
  case (4 tn heimdall builder everything circuits)
  then show ?case by simp
next
  case (5 x inputs outputs childId rest tn heimdall builder everything circuits)
  let ?b2 = "if childId \<noteq> [] then addChildId (addType builder tn) childId else addType builder tn"
  let ?b2' = "if childId \<noteq> [] then addChildId (addType b' tn) childId else addType b' tn"
  note I1 = "5.IH"(1) [OF refl refl "5.prems", of ?b2']
  show ?case
  proof (cases "instantiate x heimdall ?b2")
    case (Inl e)
    with I1 have "instantiate x B ?b2' = Inl e" by (auto dest!: rel_sum_InlD)
    with Inl show ?thesis by (simp add: Let_def)
  next
    case (Inr r)
    obtain c A1 where r: "r = (c, A1)" by (cases r)
    from I1 Inr r obtain B1 where
      iB: "instantiate x B ?b2' = Inr (shift_circuit k c, B1)" and R1: "relocated k A1 B1"
      by (auto dest!: rel_sum_InrD)
    note RO = register_outputs_shift [of k c outputs "[0..<protoNumOutputs x]" everything]
    show ?thesis
    proof (cases "register_outputs c outputs [0..<protoNumOutputs x] everything")
      case (Inl e)
      with Inr r iB RO show ?thesis by (simp add: Let_def)
    next
      case ev1: (Inr ev1)
      from "5.IH"(2) [OF refl refl Inr r [symmetric] ev1 R1, of b']
      show ?thesis using Inr r iB RO ev1 by (simp add: Let_def)
    qed
  qed
qed


lemma getNumInputs_shift: "getNumInputs (shift_gate k g) = getNumInputs g"
  by (cases g) simp_all

lemma setInput_shift:
  "setInput (shift_gate k g) i (shift_ptr k p) = map_sum id (shift_gate k) (setInput g i p)"
  by (cases g) simp_all

lemma set_inputs_shift:
  "\<forall>i\<in>set is. i < length args \<Longrightarrow>
     set_inputs (shift_gate k g) (map (shift_ptr k) args) is
       = map_sum id (shift_gate k) (set_inputs g args is)"
proof (induction "is" arbitrary: g)
  case Nil
  then show ?case by simp
next
  case (Cons i "is")
  then show ?case
    by (cases "setInput g i (args ! i)") (simp_all add: setInput_shift)
qed

lemma insert_inputs_shift:
  "\<forall>i\<in>set is. i < length args \<Longrightarrow>
     insert_inputs ids (map (shift_ptr k) args) is (shift_table k ev)
       = shift_table k (insert_inputs ids args is ev)"
proof (induction "is" arbitrary: ev)
  case Nil
  then show ?case by simp
next
  case (Cons i "is")
  then show ?case by (simp add: insert_entry_shift)
qed

lemma resolve_shift:
  "resolve ks (shift_table k ev) (map (shift_ptr k) data)
     = (case resolve ks ev data of (d, ev') \<Rightarrow> (map (shift_ptr k) d, shift_table k ev'))"
proof (induction ks arbitrary: ev data)
  case Nil
  then show ?case by simp
next
  case (Cons x ks)
  obtain p ev1 where s: "subscript ev x = (p, ev1)" by (cases "subscript ev x")
  from Cons.IH [of ev1 "data @ [p]"] s show ?case
    by (simp add: subscript_shift)
qed

lemma link_relocated:
  "relocated k A B \<Longrightarrow>
     rel_sum (\<lambda>(e, A') (e', B'). e' = e \<and> relocated k A' B')
       (\<lambda>(c1, A') (c2, B'). c2 = shift_circuit k c1 \<and> relocated k A' B')
       (link c args A) (link (shift_circuit k c) (map (shift_ptr k) args) B)"
  "relocated k A B \<Longrightarrow>
     rel_sum (\<lambda>(e, A') (e', B'). e' = e \<and> relocated k A' B')
       (\<lambda>(cs1, ev1, A') (cs2, ev2, B').
          cs2 = map (shift_circuit k) cs1 \<and> ev2 = shift_table k ev1 \<and> relocated k A' B')
       (link_circuits cs cmds ev A)
       (link_circuits (map (shift_circuit k) cs) cmds (shift_table k ev) B)"
proof (induction c args A and cs cmds ev A arbitrary: B and B rule: link_link_circuits.induct)
  case (1 c args gates)
  note len = relocated_length [OF "1.prems"]
  show ?case
  proof (cases c)
    case None
    with "1.prems" show ?thesis by simp
  next
    case (Some j)
    show ?thesis
    proof (cases "j < length gates")
      case False
      with Some len "1.prems" show ?thesis by simp
    next
      case True
      note g = relocated_nth [OF "1.prems" True]
      show ?thesis
      proof (cases "length args \<noteq> getNumInputs (snd (gates ! j))")
        case ar: True
        with Some True len g "1.prems" show ?thesis by (simp add: getNumInputs_shift)
      next
        case ar: False
        have si: "set_inputs (shift_gate k (snd (gates ! j))) (map (shift_ptr k) args)
            [0..<length args] = map_sum id (shift_gate k)
              (set_inputs (snd (gates ! j)) args [0..<length args])"
          by (rule set_inputs_shift) simp
        show ?thesis
        proof (cases "set_inputs (snd (gates ! j)) args [0..<length args]")
          case (Inl e)
          with Some True len g ar si "1.prems" show ?thesis
            by (simp add: getNumInputs_shift)
        next
          case (Inr g')
          from relocated_update [OF "1.prems" True, of "fst (gates ! j)" g' "fst (B ! (k + j))"]
          show ?thesis using Some True len g ar si Inr
            by (simp add: getNumInputs_shift)
        qed
      qed
    qed
  qed
next
  case (2 st everything circuits parent args gates)
  show ?case
  proof (cases "st \<noteq> Init")
    case True
    with "2.prems" show ?thesis by simp
  next
    case st: False
    show ?thesis
    proof (cases "length args \<noteq> protoNumInputs parent")
      case True
      with st "2.prems" show ?thesis by simp
    next
      case ar: False
      have ii: "insert_inputs (outer_input_ids parent) (map (shift_ptr k) args) [0..<length args]
          (shift_table k everything)
        = shift_table k (insert_inputs (outer_input_ids parent) args [0..<length args] everything)"
        by (rule insert_inputs_shift) simp
      note IH = "2.IH" [OF st ar "2.prems"]
      show ?thesis
      proof (cases "link_circuits circuits (commands parent)
          (insert_inputs (outer_input_ids parent) args [0..<length args] everything) gates")
        case (Inl e)
        with IH st ar ii show ?thesis by (auto dest!: rel_sum_InlD)
      next
        case (Inr r)
        with IH st ar ii show ?thesis by (auto dest!: rel_sum_InrD)
      qed
    qed
  qed
next
  case (3 cmds everything gates)
  then show ?case by simp
next
  case (4 c cs everything gates)
  then show ?case by simp
next
  case (5 c cs desc cmds everything gates)
  obtain data ev1 where rs: "resolve (cmd_inputs desc) everything [] = (data, ev1)"
    by (cases "resolve (cmd_inputs desc) everything []")
  from resolve_shift [of "cmd_inputs desc" k everything "[]"] rs
  have rs': "resolve (cmd_inputs desc) (shift_table k everything) []
      = (map (shift_ptr k) data, shift_table k ev1)" by simp
  note I1 = "5.IH"(1) [OF rs [symmetric] "5.prems"]
  show ?case
  proof (cases "link c data gates")
    case (Inl e)
    with I1 rs rs' show ?thesis by (auto dest!: rel_sum_InlD)
  next
    case (Inr r)
    obtain c' A1 where r: "r = (c', A1)" by (cases r)
    from I1 Inr r obtain B1 where
      lB: "link (shift_circuit k c) (map (shift_ptr k) data) B = Inr (shift_circuit k c', B1)"
      and R1: "relocated k A1 B1"
      by (auto dest!: rel_sum_InrD)
    note I2 = "5.IH"(2) [OF rs [symmetric] Inr r [symmetric] R1]
    show ?thesis
    proof (cases "link_circuits cs cmds ev1 A1")
      case (Inl e)
      with I2 rs rs' Inr r lB show ?thesis by (auto dest!: rel_sum_InlD)
    next
      case rr: (Inr r2)
      with I2 rs rs' Inr r lB show ?thesis by (auto dest!: rel_sum_InrD)
    qed
  qed
qed


lemma tick1_length: "tick1 fuel i (A, out) = Inr (A', out') \<Longrightarrow> length A' = length A"
  by (cases "snd (A ! i)") (auto split: sum.splits)

lemma tick1_relocated:
  assumes "relocated k A B" and "i < length A"
  shows "rel_sum (=) (\<lambda>(A', out1) (B', out2). out2 = out1 \<and> relocated k A' B')
     (tick1 fuel i (A, out)) (tick1 fuel (k + i) (B, out))"
proof (cases "snd (A ! i)")
  case (Register in0 v nv)
  from relocated_nth [OF assms] Register
  have B: "snd (B ! (k + i)) = Register (shift_ptr k in0) v nv" by simp
  show ?thesis
  proof (cases "getValue fuel A in0")
    case (Inl e)
    with Register B getValue_relocated [OF assms(1), of fuel in0] show ?thesis by simp
  next
    case (Inr b)
    from relocated_update [OF assms, of "fst (A ! i)" "Register in0 v b" "fst (B ! (k + i))"]
    show ?thesis
      using Inr Register B getValue_relocated [OF assms(1), of fuel in0] by simp
  qed
next
  case (TickOutputOnly in0 t nm)
  from relocated_nth [OF assms] TickOutputOnly
  have B: "snd (B ! (k + i)) = TickOutputOnly (shift_ptr k in0) t nm" by simp
  show ?thesis
  proof (cases "getValue fuel A in0")
    case (Inl e)
    with TickOutputOnly B getValue_relocated [OF assms(1), of fuel in0] show ?thesis by simp
  next
    case (Inr b)
    from relocated_update [OF assms, of "fst (A ! i)" "TickOutputOnly in0 (t + 1) nm"
        "fst (B ! (k + i))"]
    show ?thesis
      using Inr TickOutputOnly B getValue_relocated [OF assms(1), of fuel in0] by simp
  qed
next
  case LowOutput
  with relocated_nth [OF assms] assms(1) show ?thesis by simp
next
  case (Nand in0 in1)
  with relocated_nth [OF assms] assms(1) show ?thesis by simp
next
  case (Input in0 in1 v nm)
  with relocated_nth [OF assms] assms(1) show ?thesis by simp
qed

lemma tick1_no_tick:
  assumes "relocated k A B" and "i < k"
  shows "tick1 fuel i (B, out) = Inr (B, out)"
  using relocated_passive [OF assms] by (cases "snd (B ! i)") simp_all

lemma tick1_loop_prefix:
  assumes "relocated k A B" and "\<forall>i\<in>set is. i < k"
  shows "tick1_loop fuel is (B, out) = Inr (B, out)"
  using assms(2)
proof (induction "is")
  case Nil
  then show ?case by simp
next
  case (Cons i "is")
  with tick1_no_tick [OF assms(1), of i fuel out] show ?case by simp
qed

lemma tick1_loop_append:
  "tick1_loop fuel (xs @ ys) st =
     (case tick1_loop fuel xs st of Inl e \<Rightarrow> Inl e | Inr st' \<Rightarrow> tick1_loop fuel ys st')"
  by (induction xs arbitrary: st) (simp_all split: sum.splits)

lemma tick1_loop_relocated:
  assumes "relocated k A B" and "\<forall>i\<in>set is. i < length A"
  shows "rel_sum (=) (\<lambda>(A', out1) (B', out2). out2 = out1 \<and> relocated k A' B')
     (tick1_loop fuel is (A, out)) (tick1_loop fuel (map ((+) k) is) (B, out))"
  using assms
proof (induction "is" arbitrary: A B out)
  case Nil
  then show ?case by simp
next
  case (Cons i "is")
  from Cons.prems(2) have i: "i < length A" by simp
  note T = tick1_relocated [OF Cons.prems(1) i, of fuel out]
  show ?case
  proof (cases "tick1 fuel i (A, out)")
    case (Inl e)
    with T show ?thesis by (auto dest!: rel_sum_InlD)
  next
    case (Inr r)
    obtain A1 out1 where r: "r = (A1, out1)" by (cases r)
    from T Inr r obtain B1 where
      tB: "tick1 fuel (k + i) (B, out) = Inr (B1, out1)" and R1: "relocated k A1 B1"
      by (auto dest!: rel_sum_InrD)
    from tick1_length Inr r have "length A1 = length A" by blast
    with Cons.prems(2) have "\<forall>i\<in>set is. i < length A1" by simp
    from Cons.IH [OF R1 this, of out1] Inr r tB show ?thesis by simp
  qed
qed

lemma upt_shift: "[0..<k + n] = [0..<k] @ map ((+) k) [0..<n]"
  by (induction n) simp_all

lemma tick2_length: "length (tick2 i A) = length A"
  by (cases "snd (A ! i)") simp_all

lemma tick2_relocated:
  assumes "relocated k A B" and "i < length A"
  shows "relocated k (tick2 i A) (tick2 (k + i) B)"
proof (cases "snd (A ! i)")
  case (Register in0 v nv)
  from relocated_update [OF assms, of "fst (A ! i)" "Register in0 nv nv" "fst (B ! (k + i))"]
    relocated_nth [OF assms] Register
  show ?thesis by simp
qed (use relocated_nth [OF assms] assms(1) in simp_all)

lemma tick2_no_tick:
  assumes "relocated k A B" and "i < k"
  shows "tick2 i B = B"
  using relocated_passive [OF assms] by (cases "snd (B ! i)") simp_all

lemma tick2_loop_prefix:
  assumes "relocated k A B" and "\<forall>i\<in>set is. i < k"
  shows "tick2_loop is B = B"
  using assms(2)
proof (induction "is")
  case Nil
  then show ?case by simp
next
  case (Cons i "is")
  with tick2_no_tick [OF assms(1), of i] show ?case by simp
qed

lemma tick2_loop_append: "tick2_loop (xs @ ys) A = tick2_loop ys (tick2_loop xs A)"
  by (induction xs arbitrary: A) simp_all

lemma tick2_loop_relocated:
  assumes "relocated k A B" and "\<forall>i\<in>set is. i < length A"
  shows "relocated k (tick2_loop is A) (tick2_loop (map ((+) k) is) B)"
  using assms
proof (induction "is" arbitrary: A B)
  case Nil
  then show ?case by simp
next
  case (Cons i "is")
  from Cons.prems(2) have i: "i < length A" by simp
  note R1 = tick2_relocated [OF Cons.prems(1) i]
  from Cons.prems(2) have "\<forall>j\<in>set is. j < length (tick2 i A)"
    by (simp add: tick2_length del: tick2.simps)
  from Cons.IH [OF R1 this] show ?case by simp
qed

lemma tick_relocated:
  assumes "relocated k A B"
  shows "rel_sum (=) (\<lambda>(A', out1) (B', out2). out2 = out1 \<and> relocated k A' B')
     (tick fuel (A, out)) (tick fuel (B, out))"
proof -
  note len = relocated_length [OF assms]
  have p1: "tick1_loop fuel [0..<length B] (B, out)
      = tick1_loop fuel (map ((+) k) [0..<length A]) (B, out)"
    using tick1_loop_prefix [OF assms, of "[0..<k]" fuel out]
    by (simp add: len upt_shift tick1_loop_append)
  have L: "rel_sum (=) (\<lambda>(A', out1) (B', out2). out2 = out1 \<and> relocated k A' B')
     (tick1_loop fuel [0..<length A] (A, out)) (tick1_loop fuel (map ((+) k) [0..<length A]) (B, out))"
    by (rule tick1_loop_relocated [OF assms]) simp
  show ?thesis
  proof (cases "tick1_loop fuel [0..<length A] (A, out)")
    case (Inl e)
    with L p1 show ?thesis by (auto simp: tick_def dest!: rel_sum_InlD)
  next
    case (Inr r)
    obtain A1 out1 where r: "r = (A1, out1)" by (cases r)
    from L Inr r obtain B1 where
      tB: "tick1_loop fuel (map ((+) k) [0..<length A]) (B, out) = Inr (B1, out1)"
      and R1: "relocated k A1 B1"
      by (auto dest!: rel_sum_InrD)
    note len1 = relocated_length [OF R1]
    have "tick2_loop [0..<length B1] B1 = tick2_loop (map ((+) k) [0..<length A1]) B1"
      using tick2_loop_prefix [OF R1, of "[0..<k]"]
      by (simp add: len1 upt_shift tick2_loop_append)
    moreover have "relocated k (tick2_loop [0..<length A1] A1)
        (tick2_loop (map ((+) k) [0..<length A1]) B1)"
      by (rule tick2_loop_relocated [OF R1]) simp
    ultimately show ?thesis using Inr r tB p1 by (simp add: tick_def)
  qed
qed

lemma ticks_relocated:
  assumes "relocated k A B"
  shows "rel_sum (=) (\<lambda>(A', out1) (B', out2). out2 = out1 \<and> relocated k A' B')
     (ticks fuel n (A, out)) (ticks fuel n (B, out))"
  using assms
proof (induction n arbitrary: A B out)
  case 0
  then show ?case by simp
next
  case (Suc n)
  note T = tick_relocated [OF Suc.prems, of fuel out]
  show ?case
  proof (cases "tick fuel (A, out)")
    case (Inl e)
    with T show ?thesis by (auto dest!: rel_sum_InlD)
  next
    case (Inr r)
    obtain A1 out1 where r: "r = (A1, out1)" by (cases r)
    from T Inr r obtain B1 where
      tB: "tick fuel (B, out) = Inr (B1, out1)" and R1: "relocated k A1 B1"
      by (auto dest!: rel_sum_InrD)
    from Suc.IH [OF R1, of out1] Inr r tB show ?thesis by simp
  qed
qed

lemma read_outputs_relocated:
  assumes "relocated k A B"
  shows "read_outputs fuel B (shift_circuit k c) is = read_outputs fuel A c is"
proof (induction "is")
  case Nil
  then show ?case by simp
next
  case (Cons i "is")
  show ?case
  proof (cases "getOutput c i")
    case (Inl e)
    then show ?thesis by (simp add: getOutput_shift)
  next
    case (Inr p)
    with Cons getValue_relocated [OF assms, of fuel p] show ?thesis
      by (simp add: getOutput_shift split: sum.splits)
  qed
qed


text \<open>
  C7: the same prototype instantiated and linked in two arenas, with the same number of
  ticks run on each.  The second arena may hold the gates at other addresses (behind
  gates of its own, with the pointers given to \<open>link\<close> moved accordingly) and may be
  given another diagnostic prefix.  What is read from the outputs after the ticks, a
  list of values or a failure, is the same in both.  With \<open>k = 0\<close> the two arenas hold
  the same gates.
\<close>

theorem separate_arenas_same_outputs:
  assumes "relocated k heimdall heimdall'"
  shows "outputs_after proto heimdall' builder' (map (shift_ptr k) args) fuel n
    = outputs_after proto heimdall builder args fuel n"
proof -
  note I = instantiate_relocated(1) [OF assms, of proto builder builder']
  show ?thesis
  proof (cases "instantiate proto heimdall builder")
    case (Inl e)
    with I show ?thesis by (auto simp: outputs_after_def dest!: rel_sum_InlD)
  next
    case (Inr r)
    obtain c A1 where r: "r = (c, A1)" by (cases r)
    from I Inr r obtain B1 where
      iB: "instantiate proto heimdall' builder' = Inr (shift_circuit k c, B1)"
      and R1: "relocated k A1 B1"
      by (auto dest!: rel_sum_InrD)
    note L = link_relocated(1) [OF R1, of c args]
    show ?thesis
    proof (cases "link c args A1")
      case (Inl e)
      with L Inr r iB show ?thesis by (auto simp: outputs_after_def dest!: rel_sum_InlD)
    next
      case lr: (Inr r2)
      obtain c' A2 where r2: "r2 = (c', A2)" by (cases r2)
      from L lr r2 obtain B2 where
        lB: "link (shift_circuit k c) (map (shift_ptr k) args) B1 = Inr (shift_circuit k c', B2)"
        and R2: "relocated k A2 B2"
        by (auto dest!: rel_sum_InrD)
      note T = ticks_relocated [OF R2, of fuel n "[]"]
      show ?thesis
      proof (cases "ticks fuel n (A2, [])")
        case (Inl e)
        with T Inr r iB lr r2 lB show ?thesis
          by (auto simp: outputs_after_def dest!: rel_sum_InlD)
      next
        case tr: (Inr r3)
        obtain A3 out3 where r3: "r3 = (A3, out3)" by (cases r3)
        from T tr r3 obtain B3 where
          tB: "ticks fuel n (B2, []) = Inr (B3, out3)" and R3: "relocated k A3 B3"
          by (auto dest!: rel_sum_InrD)
        from read_outputs_relocated [OF R3, of fuel c' "[0..<protoNumOutputs proto]"]
        show ?thesis using Inr r iB lr r2 lB tr r3 tB
          by (simp add: outputs_after_def)
      qed
    qed
  qed
qed

theorem separate_arenas_same_outputs_witness:
  "relocated 1 (three_inputs True True True)
     ((''[low] '', LowOutput) # three_inputs True True True)
   \<and> outputs_after adderPrototype ((''[low] '', LowOutput) # three_inputs True True True)
       ''{second}: '' [Some 1, Some 2, Some 3] 12 3
     = outputs_after adderPrototype (three_inputs True True True) [] [Some 0, Some 1, Some 2] 12 3"
proof -
  have r: "relocated 1 (three_inputs True True True)
     ((''[low] '', LowOutput) # three_inputs True True True)"
    by (simp add: relocated_def three_inputs_def)
  have m: "map (shift_ptr 1) [Some 0, Some 1, Some 2] = [Some 1, Some 2, Some 3]"
    by simp
  have e: "outputs_after adderPrototype ((''[low] '', LowOutput) # three_inputs True True True)
       ''{second}: '' (map (shift_ptr 1) [Some 0, Some 1, Some 2]) 12 3
     = outputs_after adderPrototype (three_inputs True True True) [] [Some 0, Some 1, Some 2] 12 3"
    by (rule separate_arenas_same_outputs [OF r])
  from r e [unfolded m] show ?thesis by (rule conjI)
qed

end
